theory Spec2Isabelle
  imports Complex_Main "HOL-Library.Word" "HOL-Library.Log_Nat"
begin

section \<open>JavaScript values used by the decoder\<close>

subsection \<open>Strings\<close>

text \<open>
  A JavaScript string is a sequence of UTF-16 code units. \<open>js\<close> turns an ASCII
  literal into such a sequence, so that inputs can be written as text.
\<close>

type_synonym code_unit = "16 word"
type_synonym js_string = "code_unit list"

definition js :: "string \<Rightarrow> js_string" where
  "js s = map of_char s"

definition LF :: code_unit where "LF = 0x0A"
definition CR :: code_unit where "CR = 0x0D"
definition TAB :: code_unit where "TAB = 0x09"
definition SP :: code_unit where "SP = 0x20"
definition HASH :: code_unit where "HASH = 0x23"

text \<open>
  \<open>String.prototype.split\<close> with a separator of one code unit: the pieces between
  the occurrences of the separator, empty pieces included; the empty string gives one
  empty piece. The result is never empty, so the first case of the \<open>case\<close> below is
  never taken.
\<close>

fun split :: "'a \<Rightarrow> 'a list \<Rightarrow> 'a list list" where
  "split sep [] = [[]]"
| "split sep (c # cs) =
     (if c = sep then [] # split sep cs
      else (case split sep cs of [] \<Rightarrow> [[c]] | x # xs \<Rightarrow> (c # x) # xs))"

text \<open>\<open>Array.prototype.join\<close> with a separator of one code unit.\<close>

fun join :: "'a \<Rightarrow> 'a list list \<Rightarrow> 'a list" where
  "join sep [] = []"
| "join sep [x] = x"
| "join sep (x # y # ys) = x @ sep # join sep (y # ys)"

subsection \<open>Numbers\<close>

text \<open>
  A JavaScript number is an IEEE 754 binary64 value: NaN, the two infinities, the two
  zeros (\<open>Finite 0\<close> is \<open>+0\<close>) or a finite non-zero value, kept as the rational it
  denotes. \<open>undefined\<close>, which the decoder only ever uses where a number is expected,
  is converted to NaN at every such use and is modelled as \<open>NaN\<close>.
\<close>

datatype number = NaN | PosInf | NegInf | NegZero | Finite rat

text \<open>Rounding to the nearest integer, ties to the even one.\<close>

definition round_half_even :: "rat \<Rightarrow> int" where
  "round_half_even q =
     (let f = \<lfloor>q\<rfloor>; r = q - of_int f
      in if r < 1 / 2 then f else if 1 / 2 < r then f + 1 else if even f then f else f + 1)"

text \<open>\<open>ilog2 a\<close> is \<open>\<lfloor>log\<^sub>2 a\<rfloor>\<close> for a positive rational \<open>a\<close>.\<close>

definition ilog2 :: "rat \<Rightarrow> int" where
  "ilog2 a = (if 1 \<le> a then bitlen \<lfloor>a\<rfloor> - 1 else - bitlen (\<lceil>1 / a\<rceil> - 1))"

text \<open>
  The binary64 value nearest to a positive rational, ties to even, with 53 significant
  bits and the least exponent \<open>-1074\<close> of the subnormal numbers; the exponent is not
  bounded above here, \<open>to_number\<close> turns what is too large into an infinity.
\<close>

definition round_binary64 :: "rat \<Rightarrow> rat" where
  "round_binary64 a =
     (let e = max (ilog2 a - 52) (- 1074)
      in of_int (round_half_even (a / 2 powi e)) * 2 powi e)"

definition to_number :: "rat \<Rightarrow> number" where
  "to_number q =
     (if q = 0 then Finite 0
      else let r = round_binary64 \<bar>q\<bar>
           in if 2 ^ 1024 \<le> r then (if 0 < q then PosInf else NegInf)
              else if r = 0 then (if 0 < q then Finite 0 else NegZero)
              else Finite (if 0 < q then r else - r))"

fun is_neg :: "number \<Rightarrow> bool" where
  "is_neg NegInf = True"
| "is_neg NegZero = True"
| "is_neg (Finite q) = (q < 0)"
| "is_neg _ = False"

fun is_zero :: "number \<Rightarrow> bool" where
  "is_zero NegZero = True"
| "is_zero (Finite q) = (q = 0)"
| "is_zero _ = False"

fun is_inf :: "number \<Rightarrow> bool" where
  "is_inf PosInf = True"
| "is_inf NegInf = True"
| "is_inf _ = False"

fun val :: "number \<Rightarrow> rat" where
  "val (Finite q) = q"
| "val _ = 0"

definition signed_inf :: "bool \<Rightarrow> number" where
  "signed_inf neg = (if neg then NegInf else PosInf)"

definition signed_zero :: "bool \<Rightarrow> number" where
  "signed_zero neg = (if neg then NegZero else Finite 0)"

text \<open>The operators \<open>*\<close>, \<open>/\<close>, \<open>+\<close>, \<open>-\<close>, \<open>%\<close> and \<open><\<close> on numbers.\<close>

definition js_mul :: "number \<Rightarrow> number \<Rightarrow> number" where
  "js_mul a b =
     (if a = NaN \<or> b = NaN then NaN
      else if (is_inf a \<and> is_zero b) \<or> (is_zero a \<and> is_inf b) then NaN
      else if is_inf a \<or> is_inf b then signed_inf (is_neg a \<noteq> is_neg b)
      else if is_zero a \<or> is_zero b then signed_zero (is_neg a \<noteq> is_neg b)
      else to_number (val a * val b))"

definition js_div :: "number \<Rightarrow> number \<Rightarrow> number" where
  "js_div a b =
     (if a = NaN \<or> b = NaN then NaN
      else if (is_inf a \<and> is_inf b) \<or> (is_zero a \<and> is_zero b) then NaN
      else if is_inf a \<or> is_zero b then signed_inf (is_neg a \<noteq> is_neg b)
      else if is_inf b \<or> is_zero a then signed_zero (is_neg a \<noteq> is_neg b)
      else to_number (val a / val b))"

definition js_add :: "number \<Rightarrow> number \<Rightarrow> number" where
  "js_add a b =
     (if a = NaN \<or> b = NaN then NaN
      else if is_inf a \<and> is_inf b then (if a = b then a else NaN)
      else if is_inf a then a
      else if is_inf b then b
      else if a = NegZero \<and> b = NegZero then NegZero
      else to_number (val a + val b))"

fun js_neg :: "number \<Rightarrow> number" where
  "js_neg NaN = NaN"
| "js_neg PosInf = NegInf"
| "js_neg NegInf = PosInf"
| "js_neg NegZero = Finite 0"
| "js_neg (Finite q) = (if q = 0 then NegZero else Finite (- q))"

definition js_sub :: "number \<Rightarrow> number \<Rightarrow> number" where
  "js_sub a b = js_add a (js_neg b)"

text \<open>
  The remainder has the sign of the dividend and is exact, so it is not rounded.
\<close>

definition js_rem :: "number \<Rightarrow> number \<Rightarrow> number" where
  "js_rem n d =
     (if n = NaN \<or> d = NaN \<or> is_inf n \<or> is_zero d then NaN
      else if is_inf d \<or> is_zero n then n
      else let q = val n / val d;
               t = (if 0 \<le> q then \<lfloor>q\<rfloor> else \<lceil>q\<rceil>);
               r = val n - val d * of_int t
           in if r = 0 then signed_zero (is_neg n) else Finite r)"

definition js_lt :: "number \<Rightarrow> number \<Rightarrow> bool" where
  "js_lt a b =
     (if a = NaN \<or> b = NaN then False
      else if a = PosInf \<or> b = NegInf then False
      else if a = NegInf \<or> b = PosInf then True
      else val a < val b)"

text \<open>
  \<open>ToUint8Clamp\<close>, the conversion a \<open>Uint8ClampedArray\<close> applies to every value
  stored into it: NaN becomes 0, the value is clamped to the range from 0 to 255 and
  then rounded to the nearest integer, ties to even.
\<close>

definition ToUint8Clamp :: "number \<Rightarrow> 8 word" where
  "ToUint8Clamp v =
     (case v of
        NaN \<Rightarrow> 0
      | PosInf \<Rightarrow> 255
      | NegInf \<Rightarrow> 0
      | NegZero \<Rightarrow> 0
      | Finite q \<Rightarrow>
          if q \<le> 0 then 0 else if 255 \<le> q then 255 else word_of_int (round_half_even q))"

text \<open>
  The conversion of an argument of Web IDL type \<open>unsigned long\<close>: NaN, the zeros and
  the infinities give 0, any other number is truncated towards zero and reduced
  modulo \<open>2\<^sup>3\<^sup>2\<close>.
\<close>

definition to_unsigned_long :: "number \<Rightarrow> nat" where
  "to_unsigned_long v =
     (case v of
        Finite q \<Rightarrow> nat ((if 0 \<le> q then \<lfloor>q\<rfloor> else \<lceil>q\<rceil>) mod 2 ^ 32)
      | _ \<Rightarrow> 0)"

text \<open>
  The index a number denotes when it is used as a property key of an array: the
  non-negative integers are indices (\<open>-0\<close> is the key \<open>"0"\<close>), nothing else is.
\<close>

definition array_index :: "number \<Rightarrow> nat option" where
  "array_index k =
     (case k of
        Finite q \<Rightarrow> if 0 \<le> q \<and> of_int \<lfloor>q\<rfloor> = q then Some (nat \<lfloor>q\<rfloor>) else None
      | NegZero \<Rightarrow> Some 0
      | _ \<Rightarrow> None)"

text \<open>
  \<open>numbers[k]\<close>: reading where the array has no element gives \<open>undefined\<close>, which
  every use in the decoder converts to NaN.
\<close>

definition get_number :: "number list \<Rightarrow> number \<Rightarrow> number" where
  "get_number numbers k =
     (case array_index k of
        Some i \<Rightarrow> if i < length numbers then numbers ! i else NaN
      | None \<Rightarrow> NaN)"

text \<open>
  \<open>data[k] = v\<close> on a \<open>Uint8ClampedArray\<close>: a store outside the array is ignored.
\<close>

definition set_data :: "8 word list \<Rightarrow> number \<Rightarrow> number \<Rightarrow> 8 word list" where
  "set_data d k v =
     (case array_index k of
        Some i \<Rightarrow> if i < length d then d[i := ToUint8Clamp v] else d
      | None \<Rightarrow> d)"

subsection \<open>parseInt\<close>

text \<open>
  \<open>parseInt(string)\<close> with no radix argument: leading white space is skipped, a sign
  is read, the prefix \<open>0x\<close> or \<open>0X\<close> selects radix 16 (radix 10 otherwise), and the
  longest run of digits of that radix is the value; with no digit the result is NaN.
  The value is converted to the nearest number (for more than 20 decimal digits the
  language lets an implementation round earlier; the exact integer is taken here).
\<close>

definition is_StrWhiteSpaceChar :: "code_unit \<Rightarrow> bool" where
  "is_StrWhiteSpaceChar c =
     (c \<in> set [0x09, 0x0A, 0x0B, 0x0C, 0x0D, 0x20, 0xA0, 0x1680, 0x2028, 0x2029,
               0x202F, 0x205F, 0x3000, 0xFEFF]
      \<or> (0x2000 \<le> c \<and> c \<le> 0x200A))"

definition digit_value :: "code_unit \<Rightarrow> nat option" where
  "digit_value c =
     (if 0x30 \<le> c \<and> c \<le> 0x39 then Some (unat c - 0x30)
      else if 0x61 \<le> c \<and> c \<le> 0x7A then Some (unat c - 0x61 + 10)
      else if 0x41 \<le> c \<and> c \<le> 0x5A then Some (unat c - 0x41 + 10)
      else None)"

definition is_radix_digit :: "nat \<Rightarrow> code_unit \<Rightarrow> bool" where
  "is_radix_digit R c = (case digit_value c of Some v \<Rightarrow> v < R | None \<Rightarrow> False)"

definition digits_value :: "nat \<Rightarrow> js_string \<Rightarrow> int" where
  "digits_value R Z =
     foldl (\<lambda>a c. a * int R + (case digit_value c of Some v \<Rightarrow> int v | None \<Rightarrow> 0)) 0 Z"

definition parseInt :: "js_string \<Rightarrow> number" where
  "parseInt inputString =
     (let S = dropWhile is_StrWhiteSpaceChar inputString;
          neg = (S \<noteq> [] \<and> hd S = 0x2D);
          S1 = (if S \<noteq> [] \<and> (hd S = 0x2B \<or> hd S = 0x2D) then tl S else S);
          hex = (take 2 S1 = js ''0x'' \<or> take 2 S1 = js ''0X'');
          R = (if hex then 16 else 10);
          S2 = (if hex then drop 2 S1 else S1);
          Z = takeWhile (is_radix_digit R) S2
      in if Z = [] then NaN
         else let mathInt = digits_value R Z
              in if mathInt = 0 then signed_zero neg
                 else to_number (if neg then - of_int mathInt else of_int mathInt))"

section \<open>The decoder\<close>

datatype NetPBMFormat = P1 | P2 | P3 | P4 | P5 | P6

text \<open>
  What the decoder can throw: the \<open>Error\<close> of \<open>detect_format\<close> with the magic it
  found, the \<open>IndexSizeError\<close> and the \<open>RangeError\<close> of the \<open>ImageData\<close>
  constructor, and the \<open>TypeError\<close> of a method call on \<open>undefined\<close>.
\<close>

datatype error =
    Unsupported_NetPBM_format js_string
  | IndexSizeError
  | RangeError
  | TypeError

type_synonym Size = "number \<times> number"

record ImageData =
  width :: nat
  height :: nat
  data :: "8 word list"

text \<open>
  \<open>new ImageData(sw, sh)\<close>: both arguments are converted to \<open>unsigned long\<close>; a zero
  is an \<open>IndexSizeError\<close>; the pixel buffer has \<open>4 * sw * sh\<close> bytes, all zero. The
  allocation of the buffer throws a \<open>RangeError\<close> when the host cannot provide it:
  \<open>cap\<close> is the largest length the host provides, and no typed array is longer than
  \<open>2\<^sup>5\<^sup>3 - 1\<close>.
\<close>

definition new_ImageData :: "nat \<Rightarrow> number \<Rightarrow> number \<Rightarrow> error + ImageData" where
  "new_ImageData cap sw sh =
     (let w = to_unsigned_long sw; h = to_unsigned_long sh
      in if w = 0 \<or> h = 0 then Inl IndexSizeError
         else if min cap (2 ^ 53 - 1) < 4 * w * h then Inl RangeError
         else Inr \<lparr>width = w, height = h, data = replicate (4 * w * h) 0\<rparr>)"

subsection \<open>detect_format\<close>

text \<open>
  \<open>magic in MAGICS\<close> also finds the properties \<open>MAGICS\<close> inherits from
  \<open>Object.prototype\<close>; none of them has a name of two code units or fewer, so for
  the magic, which has at most two, the test is the lookup in the table itself.
\<close>

definition MAGICS :: "js_string \<rightharpoonup> NetPBMFormat" where
  "MAGICS = [js ''P1'' \<mapsto> P1, js ''P2'' \<mapsto> P2, js ''P3'' \<mapsto> P3]"

definition detect_format :: "js_string \<Rightarrow> error + NetPBMFormat" where
  "detect_format imagedata =
     (let magic = take 2 imagedata
      in case MAGICS magic of
           Some format \<Rightarrow> Inr format
         | None \<Rightarrow> Inl (Unsupported_NetPBM_format magic))"

subsection \<open>get_tokens_from_ascii\<close>

text \<open>
  \<open>line.replace(/#.*/, "")\<close> removes the first match only: from the first \<open>#\<close> up to,
  and not including, the first line terminator after it (the dot of a regular
  expression matches no line feed, carriage return, U+2028 or U+2029) or the end.
\<close>

definition is_line_terminator :: "code_unit \<Rightarrow> bool" where
  "is_line_terminator c = (c = LF \<or> c = CR \<or> c = 0x2028 \<or> c = 0x2029)"

definition remove_comment :: "js_string \<Rightarrow> js_string" where
  "remove_comment line =
     takeWhile (\<lambda>c. c \<noteq> HASH) line
       @ dropWhile (\<lambda>c. \<not> is_line_terminator c) (dropWhile (\<lambda>c. c \<noteq> HASH) line)"

definition get_tokens_from_ascii :: "js_string \<Rightarrow> js_string list" where
  "get_tokens_from_ascii ascii =
     filter (\<lambda>x. 0 < length x)
       (split SP (join SP (map remove_comment (split LF (drop 2 ascii)))))"

subsection \<open>process_ascii and process_ascii_P1\<close>

definition process_ascii :: "js_string \<Rightarrow> number list" where
  "process_ascii ascii = map parseInt (get_tokens_from_ascii ascii)"

text \<open>
  \<open>join("")\<close> concatenates the tokens and \<open>split("")\<close> gives the code units of the
  result, each as a string of its own.
\<close>

definition process_ascii_P1 :: "js_string \<Rightarrow> number list" where
  "process_ascii_P1 ascii =
     (let tokens = get_tokens_from_ascii ascii;
          dimensions = map parseInt (take 2 tokens);
          numbers = map parseInt (map (\<lambda>c. [c]) (concat (drop 2 tokens)))
      in dimensions @ numbers)"

subsection \<open>render\<close>

definition numbersPerPixel :: "NetPBMFormat \<Rightarrow> number" where
  "numbersPerPixel format =
     (case format of P1 \<Rightarrow> Finite 1 | P2 \<Rightarrow> Finite 1 | P3 \<Rightarrow> Finite 3 | _ \<Rightarrow> NaN)"

text \<open>
  The body of the two nested iterations for the pixel at column \<open>x\<close> of row \<open>y\<close>. The loop over
  \<open>i\<close> runs for 0, 1 and 2; a format with no case in the \<open>switch\<close> stores the alpha
  byte only.
\<close>

definition render_pixel ::
  "NetPBMFormat \<Rightarrow> number \<Rightarrow> number \<Rightarrow> number list \<Rightarrow> number \<Rightarrow> number \<Rightarrow> 8 word list
     \<Rightarrow> 8 word list" where
  "render_pixel format size_x depth numbers y x d =
     (let pnum = js_add (js_mul y size_x) x;
          npp = numbersPerPixel format;
          bitmap = (\<lambda>i d. set_data d (js_add (js_mul (Finite 4) pnum) i)
            (js_sub (Finite 255) (js_mul (get_number numbers (js_mul npp pnum)) (Finite 255))));
          scaled = (\<lambda>i d. set_data d (js_add (js_mul (Finite 4) pnum) i)
            (js_mul (js_div (get_number numbers (js_add (js_mul npp pnum) (js_rem i npp))) depth)
               (Finite 255)));
          d' = (case format of
                  P1 \<Rightarrow> fold bitmap [Finite 0, Finite 1, Finite 2] d
                | P2 \<Rightarrow> fold scaled [Finite 0, Finite 1, Finite 2] d
                | P3 \<Rightarrow> fold scaled [Finite 0, Finite 1, Finite 2] d
                | _ \<Rightarrow> d)
      in set_data d' (js_add (js_mul (Finite 4) pnum) (Finite 3)) (Finite 255))"

text \<open>
  The iterations over \<open>x\<close> and over \<open>y\<close>. Their counters are numbers, and \<open>x++\<close> stops
  changing \<open>x\<close> at \<open>2\<^sup>5\<^sup>3\<close>, so an iteration with a larger bound does not end: the
  result is \<open>None\<close>.
\<close>

partial_function (option) render_row ::
  "NetPBMFormat \<Rightarrow> number \<Rightarrow> number \<Rightarrow> number list \<Rightarrow> number \<Rightarrow> number \<Rightarrow> 8 word list
     \<Rightarrow> 8 word list option" where
  "render_row format size_x depth numbers y x d =
     (if js_lt x size_x
      then render_row format size_x depth numbers y (js_add x (Finite 1))
             (render_pixel format size_x depth numbers y x d)
      else Some d)"

partial_function (option) render_rows ::
  "NetPBMFormat \<Rightarrow> Size \<Rightarrow> number \<Rightarrow> number list \<Rightarrow> number \<Rightarrow> 8 word list
     \<Rightarrow> 8 word list option" where
  "render_rows format image_size depth numbers y d =
     (if js_lt y (snd image_size)
      then Option.bind (render_row format (fst image_size) depth numbers y (Finite 0) d)
             (\<lambda>d'. render_rows format image_size depth numbers (js_add y (Finite 1)) d')
      else Some d)"

declare render_row.simps [code]
declare render_rows.simps [code]

definition render ::
  "nat \<Rightarrow> NetPBMFormat \<Rightarrow> Size \<Rightarrow> number \<Rightarrow> number list \<Rightarrow> (error + ImageData) option" where
  "render cap format image_size depth numbers =
     (case new_ImageData cap (fst image_size) (snd image_size) of
        Inl e \<Rightarrow> Some (Inl e)
      | Inr newImageData \<Rightarrow>
          map_option (\<lambda>d. Inr (newImageData\<lparr>data := d\<rparr>))
            (render_rows format image_size depth numbers (Finite 0) (data newImageData)))"

subsection \<open>The constructor of NetPBMImage, and NetPBM.parse\<close>

text \<open>
  The result is \<open>None\<close> when the constructor does not return, \<open>Some (Inl e)\<close> when it
  throws \<open>e\<close>, and \<open>Some (Inr imageData)\<close> when it stores \<open>imageData\<close> in the new
  object. \<open>depth\<close> is left \<open>undefined\<close> for P1.
\<close>

definition NetPBMImage :: "nat \<Rightarrow> js_string \<Rightarrow> (error + ImageData) option" where
  "NetPBMImage cap ascii =
     (case detect_format ascii of
        Inl e \<Rightarrow> Some (Inl e)
      | Inr format \<Rightarrow>
          (case format of
             P1 \<Rightarrow>
               (let numbers = process_ascii_P1 ascii;
                    image_size = (get_number numbers (Finite 0), get_number numbers (Finite 1))
                in render cap format image_size NaN (drop 2 numbers))
           | P2 \<Rightarrow>
               (let numbers = process_ascii ascii;
                    image_size = (get_number numbers (Finite 0), get_number numbers (Finite 1));
                    depth = get_number numbers (Finite 2)
                in render cap format image_size depth (drop 3 numbers))
           | P3 \<Rightarrow>
               (let numbers = process_ascii ascii;
                    image_size = (get_number numbers (Finite 0), get_number numbers (Finite 1));
                    depth = get_number numbers (Finite 2)
                in render cap format image_size depth (drop 3 numbers))
           | _ \<Rightarrow> Some (Inl TypeError)))"

definition parse :: "nat \<Rightarrow> js_string \<Rightarrow> (error + ImageData) option" where
  "parse cap ascii = NetPBMImage cap ascii"

section \<open>Notions used to state the properties\<close>

text \<open>The number of a natural number.\<close>

definition num :: "nat \<Rightarrow> number" where
  "num k = Finite (of_nat k)"

text \<open>
  A header the decoder can serve: width and height from 1 up to \<open>2\<^sup>3\<^sup>2 - 1\<close>, which the
  \<open>ImageData\<close> constructor keeps as they are, and a pixel buffer the host can allocate.
\<close>

definition valid_size :: "nat \<Rightarrow> nat \<Rightarrow> nat \<Rightarrow> bool" where
  "valid_size cap w h \<longleftrightarrow>
     0 < w \<and> w < 2 ^ 32 \<and> 0 < h \<and> h < 2 ^ 32 \<and> 4 * w * h \<le> cap \<and> 4 * w * h < 2 ^ 53"

text \<open>
  The array \<open>numbers\<close> of the constructor, the number of header entries it skips and
  the \<open>depth\<close> it passes to \<open>render\<close>, by format.
\<close>

definition numbers_of :: "NetPBMFormat \<Rightarrow> js_string \<Rightarrow> number list" where
  "numbers_of format ascii = (if format = P1 then process_ascii_P1 ascii else process_ascii ascii)"

definition hdrsize :: "NetPBMFormat \<Rightarrow> nat" where
  "hdrsize format = (if format = P1 then 2 else 3)"

definition depth_of :: "NetPBMFormat \<Rightarrow> js_string \<Rightarrow> number" where
  "depth_of format ascii = (if format = P1 then NaN else get_number (process_ascii ascii) (Finite 2))"

text \<open>
  The index in the sample array that \<open>render\<close> reads for channel \<open>i\<close> of pixel \<open>p\<close>,
  the number it computes for that channel, and the four stores it makes for the pixel.
\<close>

definition sample_index :: "NetPBMFormat \<Rightarrow> nat \<Rightarrow> nat \<Rightarrow> nat" where
  "sample_index format p i = (if format = P3 then 3 * p + i else p)"

definition channel :: "NetPBMFormat \<Rightarrow> number \<Rightarrow> number list \<Rightarrow> nat \<Rightarrow> nat \<Rightarrow> number" where
  "channel format depth numbers p i =
     (let s = get_number numbers (num (sample_index format p i))
      in if format = P1 then js_sub (Finite 255) (js_mul s (Finite 255))
         else js_mul (js_div s depth) (Finite 255))"

definition paint :: "NetPBMFormat \<Rightarrow> number \<Rightarrow> number list \<Rightarrow> nat \<Rightarrow> 8 word list \<Rightarrow> 8 word list" where
  "paint format depth numbers p d =
     d[4 * p := ToUint8Clamp (channel format depth numbers p 0),
       4 * p + 1 := ToUint8Clamp (channel format depth numbers p 1),
       4 * p + 2 := ToUint8Clamp (channel format depth numbers p 2),
       4 * p + 3 := 255]"

definition channelsPerPixel :: "NetPBMFormat \<Rightarrow> nat" where
  "channelsPerPixel format = (if format = P3 then 3 else 1)"

text \<open>
  The maximal runs of a text between separators: skip separators, take code units up
  to the next separator, and go on after it.
\<close>

function text_runs :: "('a \<Rightarrow> bool) \<Rightarrow> 'a list \<Rightarrow> 'a list list" where
  "text_runs sep s =
     (case dropWhile sep s of
        [] \<Rightarrow> []
      | c # cs \<Rightarrow>
          takeWhile (\<lambda>x. \<not> sep x) (c # cs) # text_runs sep (dropWhile (\<lambda>x. \<not> sep x) (c # cs)))"
  by pat_completeness auto
termination
proof (relation "measure (\<lambda>(sep, s). length s)")
  show "wf (measure (\<lambda>(sep :: 'a \<Rightarrow> bool, s). length s))" by simp
next
  fix sep :: "'a \<Rightarrow> bool" and s c cs
  assume a: "dropWhile sep s = c # cs"
  then have "\<not> sep c" by (metis hd_dropWhile list.distinct(1) list.sel(1))
  then have "dropWhile (\<lambda>x. \<not> sep x) (c # cs) = dropWhile (\<lambda>x. \<not> sep x) cs" by simp
  moreover have "length (dropWhile (\<lambda>x. \<not> sep x) cs) \<le> length cs" by (rule length_dropWhile_le)
  moreover have "length (c # cs) \<le> length s" using a by (metis length_dropWhile_le)
  ultimately show "((sep, dropWhile (\<lambda>x. \<not> sep x) (c # cs)), (sep, s)) \<in> measure (\<lambda>(sep, s). length s)"
    by simp
qed

declare text_runs.simps [simp del]

text \<open>
  White space as the specification lists it, and the text that is left of the input
  once the magic and the comments are removed.
\<close>

definition is_white_space :: "code_unit \<Rightarrow> bool" where
  "is_white_space c = (c = SP \<or> c = TAB \<or> c = LF \<or> c = CR \<or> c = 0x0B \<or> c = 0x0C)"

definition remaining_text :: "js_string \<Rightarrow> js_string" where
  "remaining_text ascii = join LF (map remove_comment (split LF (drop 2 ascii)))"

section \<open>Rounding to binary64\<close>

lemma round_half_even_of_int [simp]: "round_half_even (of_int n) = n"
  by (simp add: round_half_even_def)

lemma round_half_even_ge: "of_int n \<le> q \<Longrightarrow> n \<le> round_half_even q"
proof -
  assume "of_int n \<le> q"
  then have "n \<le> \<lfloor>q\<rfloor>" by (simp add: le_floor_iff)
  then show ?thesis by (simp add: round_half_even_def Let_def)
qed

lemma round_half_even_le: "q \<le> of_int n \<Longrightarrow> round_half_even q \<le> n"
proof -
  assume a: "q \<le> of_int n"
  then have f: "\<lfloor>q\<rfloor> \<le> n" by (simp add: floor_le_iff)
  show ?thesis
  proof (cases "\<lfloor>q\<rfloor> = n")
    case True
    then have "q = of_int n" using a by (metis of_int_floor_le order_antisym)
    then show ?thesis by simp
  next
    case False
    then have "\<lfloor>q\<rfloor> + 1 \<le> n" using f by simp
    then show ?thesis using f by (simp add: round_half_even_def Let_def)
  qed
qed

lemma ilog2_bounds:
  assumes "0 < a"
  shows "2 powi ilog2 a \<le> a \<and> a < 2 powi (ilog2 a + 1)"
proof (cases "1 \<le> a")
  case True
  define n where "n = \<lfloor>a\<rfloor>"
  have n: "0 < n" using True by (simp add: n_def)
  from bitlen_bounds[OF n] have b: "2 ^ nat (bitlen n - 1) \<le> n" "n < 2 ^ nat (bitlen n)" by auto
  have b1: "1 \<le> bitlen n" using n by (simp add: bitlen_alt_def)
  have "(2::rat) powi (bitlen n - 1) = of_int (2 ^ nat (bitlen n - 1))"
    using b1 by (simp add: power_int_def)
  also have "\<dots> \<le> of_int n" using b(1) by (simp only: of_int_le_iff)
  also have "\<dots> \<le> a" by (simp add: n_def)
  finally have lo: "(2::rat) powi (bitlen n - 1) \<le> a" .
  have "n + 1 \<le> 2 ^ nat (bitlen n)" using b(2) by simp
  then have "(of_int (n + 1) :: rat) \<le> of_int (2 ^ nat (bitlen n))" by (simp only: of_int_le_iff)
  moreover have "a < of_int (n + 1)" unfolding n_def by linarith
  ultimately have "a < of_int (2 ^ nat (bitlen n))" by linarith
  also have "\<dots> = 2 powi (bitlen n)" using b1 by (simp add: power_int_def)
  finally have hi: "a < 2 powi (bitlen n)" .
  show ?thesis using True lo hi by (simp add: ilog2_def n_def)
next
  case False
  define c where "c = 1 / a"
  have c: "1 < c" using False assms by (simp add: c_def)
  define n where "n = \<lceil>c\<rceil> - 1"
  have n: "0 < n" using c by (simp add: n_def less_ceiling_iff)
  from bitlen_bounds[OF n] have b: "2 ^ nat (bitlen n - 1) \<le> n" "n < 2 ^ nat (bitlen n)" by auto
  have b1: "1 \<le> bitlen n" using n by (simp add: bitlen_alt_def)
  have "of_int n < c" unfolding n_def by linarith
  moreover have "(of_int (2 ^ nat (bitlen n - 1)) :: rat) \<le> of_int n" using b(1) by (simp only: of_int_le_iff)
  ultimately have "(of_int (2 ^ nat (bitlen n - 1)) :: rat) < c" by linarith
  then have lo: "(2::rat) ^ nat (bitlen n - 1) < c" by simp
  have "n + 1 \<le> 2 ^ nat (bitlen n)" using b(2) by simp
  then have "(of_int (n + 1) :: rat) \<le> of_int (2 ^ nat (bitlen n))" by (simp only: of_int_le_iff)
  moreover have "c \<le> of_int (n + 1)" unfolding n_def by simp
  ultimately have hi: "c \<le> 2 ^ nat (bitlen n)" by simp
  have p1: "(2::rat) powi (- bitlen n) = 1 / 2 ^ nat (bitlen n)"
    using b1 by (simp add: power_int_def field_simps)
  have p2: "(2::rat) powi (- bitlen n + 1) = 1 / 2 ^ nat (bitlen n - 1)"
    using b1 by (auto simp add: power_int_def field_simps nat_diff_distrib)
  have "1 / 2 ^ nat (bitlen n) \<le> a"
    using hi assms by (simp add: c_def field_simps)
  moreover have "a < 1 / 2 ^ nat (bitlen n - 1)"
    using lo assms by (simp add: c_def field_simps)
  ultimately show ?thesis using False p1 p2 by (simp add: ilog2_def n_def c_def)
qed

lemma powi_less_imp_less: "(2::rat) powi a < 2 powi b \<Longrightarrow> a < b"
  by (rule ccontr) (simp add: not_less power_int_increasing leD)

lemma powi_nat_diff: "E \<le> e \<Longrightarrow> (2::rat) powi e = of_int (2 ^ nat (e - E)) * 2 powi E"
proof -
  assume le: "E \<le> e"
  then have d: "(2::rat) powi (e - E) = 2 ^ nat (e - E)" by (simp add: power_int_def)
  have "(2::rat) powi e = 2 powi ((e - E) + E)" by simp
  also have "\<dots> = 2 powi (e - E) * 2 powi E" by (rule power_int_add) simp
  finally show ?thesis using d by simp
qed

lemma round_binary64_dyadic:
  assumes "0 < m" "m < 2 ^ 53" "- 1074 \<le> e"
  shows "round_binary64 (of_int m * 2 powi e) = of_int m * 2 powi e"
proof -
  define a :: rat where "a = of_int m * 2 powi e"
  have a: "0 < a" using assms(1) by (simp add: a_def)
  from ilog2_bounds[OF a] have lo: "2 powi ilog2 a \<le> a" by simp
  have "(of_int m :: rat) < of_int (2 ^ 53)" using assms(2) by (simp only: of_int_less_iff)
  then have "a < 2 ^ 53 * 2 powi e" by (simp add: a_def)
  also have "\<dots> = 2 powi (53 + e)" by (subst power_int_add) simp_all
  finally have "2 powi ilog2 a < (2::rat) powi (53 + e)" using lo by simp
  then have k: "ilog2 a < 53 + e" by (rule powi_less_imp_less)
  define E where "E = max (ilog2 a - 52) (- 1074)"
  have E: "E \<le> e" using k assms(3) by (simp add: E_def)
  have "a / 2 powi E = of_int (m * 2 ^ nat (e - E))"
    unfolding a_def by (subst powi_nat_diff[OF E]) simp
  then have "of_int (round_half_even (a / 2 powi E)) * 2 powi E = of_int (m * 2 ^ nat (e - E)) * 2 powi E"
    by (simp only: round_half_even_of_int)
  also have "\<dots> = a" using powi_nat_diff[OF E] by (simp add: a_def)
  finally show ?thesis by (simp add: round_binary64_def E_def a_def Let_def)
qed

lemma to_number_dyadic:
  assumes "m \<noteq> 0" "\<bar>m\<bar> < 2 ^ 53" "- 1074 \<le> e" "e \<le> 970"
  shows "to_number (of_int m * 2 powi e) = Finite (of_int m * 2 powi e)"
proof -
  define a :: rat where "a = of_int \<bar>m\<bar> * 2 powi e"
  have abs: "\<bar>of_int m * 2 powi e\<bar> = a" by (simp add: a_def abs_mult)
  have r: "round_binary64 a = a"
    unfolding a_def using assms by (intro round_binary64_dyadic) simp_all
  have a0: "0 < a" using assms(1) by (simp add: a_def)
  have "(of_int \<bar>m\<bar> :: rat) < of_int (2 ^ 53)" using assms(2) by (simp only: of_int_less_iff)
  then have "a < 2 ^ 53 * 2 powi e" by (simp add: a_def)
  also have "\<dots> = 2 powi (53 + e)" by (subst power_int_add) simp_all
  also have "\<dots> \<le> 2 powi 1023" using assms(4) by (intro power_int_increasing) simp_all
  also have "\<dots> < 2 ^ 1024" by simp
  finally have hi: "a < 2 ^ 1024" .
  have nz: "of_int m * (2::rat) powi e \<noteq> 0" using assms(1) by simp
  have pe: "(0::rat) < 2 powi e" by simp
  have npe: "\<not> (2::rat) powi e < 0" using pe by linarith
  have sgn: "0 < of_int m * (2::rat) powi e \<longleftrightarrow> 0 < m"
    by (simp add: zero_less_mult_iff npe)
  show ?thesis
  proof (cases "0 < m")
    case True
    then have "a = of_int m * 2 powi e" by (simp add: a_def)
    then show ?thesis using True hi a0 r nz sgn abs
      by (simp add: to_number_def Let_def del: of_int_abs)
  next
    case False
    then have "a = - (of_int m * 2 powi e)" using assms(1) by (simp add: a_def)
    then show ?thesis using False hi a0 r nz sgn abs
      by (simp add: to_number_def Let_def del: of_int_abs)
  qed
qed

lemma to_number_of_int:
  assumes "\<bar>m\<bar> < 2 ^ 53"
  shows "to_number (of_int m) = Finite (of_int m)"
proof (cases "m = 0")
  case True
  then show ?thesis by (simp add: to_number_def)
next
  case False
  then show ?thesis using to_number_dyadic[of m 0] assms by simp
qed

lemma round_binary64_ge_int:
  assumes "0 < n" "n < 2 ^ 53" "of_int n \<le> q"
  shows "of_int n \<le> round_binary64 q"
proof -
  have q: "0 < q" using assms by (smt (verit) of_int_0_less_iff less_le_trans)
  from ilog2_bounds[OF q] have lo: "2 powi ilog2 q \<le> q" and hi: "q < 2 powi (ilog2 q + 1)" by simp_all
  have "(1::rat) \<le> of_int n" using assms(1) by simp
  then have "(2::rat) powi 0 < 2 powi (ilog2 q + 1)" using hi assms(3) by simp
  then have k0: "0 \<le> ilog2 q" using powi_less_imp_less by fastforce
  define E where "E = ilog2 q - 52"
  have E: "max (ilog2 q - 52) (- 1074) = E" using k0 by (simp add: E_def)
  have p: "(0::rat) < 2 powi E" by simp
  show ?thesis
  proof (cases "E \<le> 0")
    case True
    have "(of_int n :: rat) = of_int n * 2 powi 0" by simp
    also have "\<dots> = of_int n * (of_int (2 ^ nat (0 - E)) * 2 powi E)"
      by (subst powi_nat_diff[OF True]) simp
    finally have n: "(of_int n :: rat) = of_int (n * 2 ^ nat (0 - E)) * 2 powi E" by simp
    have "of_int (n * 2 ^ nat (0 - E)) * 2 powi E \<le> q" by (subst n[symmetric]) (rule assms(3))
    then have "of_int (n * 2 ^ nat (0 - E)) \<le> q / 2 powi E" using p by (simp add: field_simps)
    then have "n * 2 ^ nat (0 - E) \<le> round_half_even (q / 2 powi E)" by (rule round_half_even_ge)
    then have "(of_int (n * 2 ^ nat (0 - E)) :: rat) \<le> of_int (round_half_even (q / 2 powi E))"
      by (simp only: of_int_le_iff)
    then have "(of_int (n * 2 ^ nat (0 - E)) :: rat) * 2 powi E \<le> of_int (round_half_even (q / 2 powi E)) * 2 powi E"
      using p by (simp only: mult_le_cancel_right_pos)
    then have "(of_int n :: rat) \<le> of_int (round_half_even (q / 2 powi E)) * 2 powi E"
      by (subst n)
    then show ?thesis by (simp only: round_binary64_def E Let_def)
  next
    case False
    have "(2::rat) powi ilog2 q = 2 powi (52 + E)" by (simp add: E_def)
    also have "\<dots> = 2 ^ 52 * 2 powi E" by (subst power_int_add) simp_all
    finally have "of_int (2 ^ 52) * 2 powi E \<le> q" using lo by simp
    then have "of_int (2 ^ 52) \<le> q / 2 powi E" using p by (simp add: field_simps)
    then have "2 ^ 52 \<le> round_half_even (q / 2 powi E)" by (rule round_half_even_ge)
    then have r: "(of_int (2 ^ 52) :: rat) \<le> of_int (round_half_even (q / 2 powi E))"
      by (simp only: of_int_le_iff)
    have "(2::rat) powi 1 \<le> 2 powi E" using False by (intro power_int_increasing) simp_all
    then have P: "(2::rat) \<le> 2 powi E" by simp
    have "(of_int (2 ^ 52) :: rat) * 2 \<le> of_int (round_half_even (q / 2 powi E)) * 2 powi E"
      using r P by (intro mult_mono) simp_all
    moreover have "(of_int n :: rat) < of_int (2 ^ 53)" using assms(2) by (simp only: of_int_less_iff)
    ultimately show ?thesis by (simp add: round_binary64_def E Let_def) 
  qed
qed

lemma round_binary64_le_int:
  assumes "0 < q" "q \<le> of_int n" "n < 2 ^ 53"
  shows "round_binary64 q \<le> of_int n"
proof -
  from ilog2_bounds[OF assms(1)] have lo: "2 powi ilog2 q \<le> q" by simp
  have "(of_int n :: rat) < of_int (2 ^ 53)" using assms(3) by (simp only: of_int_less_iff)
  then have "(2::rat) powi ilog2 q < 2 powi 53" using lo assms(2) by simp
  then have k: "ilog2 q < 53" by (rule powi_less_imp_less)
  define E where "E = max (ilog2 q - 52) (- 1074)"
  have E: "E \<le> 0" using k by (simp add: E_def)
  have p: "(0::rat) < 2 powi E" by simp
  have "(of_int n :: rat) = of_int n * 2 powi 0" by simp
  also have "\<dots> = of_int n * (of_int (2 ^ nat (0 - E)) * 2 powi E)"
    by (subst powi_nat_diff[OF E]) simp
  finally have n: "(of_int n :: rat) = of_int (n * 2 ^ nat (0 - E)) * 2 powi E" by simp
  have "q \<le> of_int (n * 2 ^ nat (0 - E)) * 2 powi E" by (subst n[symmetric]) (rule assms(2))
  then have "q / 2 powi E \<le> of_int (n * 2 ^ nat (0 - E))" using p by (simp add: field_simps)
  then have "round_half_even (q / 2 powi E) \<le> n * 2 ^ nat (0 - E)" by (rule round_half_even_le)
  then have "(of_int (round_half_even (q / 2 powi E)) :: rat) \<le> of_int (n * 2 ^ nat (0 - E))"
    by (simp only: of_int_le_iff)
  then have "(of_int (round_half_even (q / 2 powi E)) :: rat) * 2 powi E \<le> of_int (n * 2 ^ nat (0 - E)) * 2 powi E"
    using p by (simp only: mult_le_cancel_right_pos)
  then have "(of_int (round_half_even (q / 2 powi E)) :: rat) * 2 powi E \<le> of_int n"
    by (subst n)
  then show ?thesis by (simp only: round_binary64_def E_def Let_def)
qed

lemma round_binary64_nonneg: "0 < q \<Longrightarrow> 0 \<le> round_binary64 q"
proof -
  assume "0 < q"
  then have "(of_int 0 :: rat) \<le> q / 2 powi max (ilog2 q - 52) (- 1074)" by simp
  then have "0 \<le> round_half_even (q / 2 powi max (ilog2 q - 52) (- 1074))"
    by (rule round_half_even_ge)
  then show ?thesis by (simp add: round_binary64_def Let_def)
qed

text \<open>What \<open>to_number\<close> gives for a positive rational between two integers.\<close>

lemma to_number_ge:
  assumes "0 < n" "n < 2 ^ 53" "of_int n \<le> q"
  shows "to_number q = PosInf \<or> (\<exists>r. to_number q = Finite r \<and> of_int n \<le> r)"
proof -
  have q: "0 < q" using assms by (smt (verit) of_int_0_less_iff less_le_trans)
  have r: "of_int n \<le> round_binary64 q" using assms by (rule round_binary64_ge_int)
  have "(0::rat) < of_int n" using assms(1) by simp
  then have "round_binary64 q \<noteq> 0" using r by linarith
  then show ?thesis using q r by (simp add: to_number_def Let_def)
qed

lemma to_number_le:
  assumes "0 < q" "q \<le> of_int n" "n < 2 ^ 53"
  shows "\<exists>r. to_number q = Finite r \<and> 0 \<le> r \<and> r \<le> of_int n"
proof -
  have r: "round_binary64 q \<le> of_int n" using assms by (rule round_binary64_le_int)
  have "(of_int n :: rat) < of_int (2 ^ 53)" using assms(3) by (simp only: of_int_less_iff)
  then have "round_binary64 q < 2 ^ 1024" using r by simp
  moreover have "0 \<le> round_binary64 q" using assms(1) by (rule round_binary64_nonneg)
  moreover have "(0::rat) \<le> of_int n" using assms by linarith
  ultimately show ?thesis using assms(1) r by (simp add: to_number_def Let_def)
qed

text \<open>
  One tenth has no binary64 representation; the nearest number is
  \<open>3602879701896397 / 2\<^sup>5\<^sup>5\<close>, the value \<open>0.1\<close> has in JavaScript.
\<close>

lemma round_binary64_one_tenth:
  "round_binary64 (1 / 10) = 3602879701896397 / 36028797018963968"
  by code_simp

section \<open>Arithmetic on small natural numbers is exact\<close>

lemma Finite_num: "Finite 0 = num 0" "Finite 1 = num 1" "Finite (numeral k) = num (numeral k)"
  by (simp_all add: num_def)

lemma to_number_of_nat: "k < 2 ^ 53 \<Longrightarrow> to_number (of_nat k) = num k"
proof -
  assume "k < 2 ^ 53"
  then have "\<bar>int k\<bar> < 2 ^ 53" by simp
  then have "to_number (of_int (int k)) = Finite (of_int (int k))" by (rule to_number_of_int)
  then show ?thesis by (simp add: num_def)
qed

lemma js_add_num: "a + b < 2 ^ 53 \<Longrightarrow> js_add (num a) (num b) = num (a + b)"
  using to_number_of_nat[of "a + b"] by (simp add: js_add_def num_def)

lemma js_mul_num: "a * b < 2 ^ 53 \<Longrightarrow> js_mul (num a) (num b) = num (a * b)"
  using to_number_of_nat[of "a * b"] by (auto simp add: js_mul_def signed_zero_def num_def)

lemma js_lt_num [simp]: "js_lt (num a) (num b) \<longleftrightarrow> a < b"
  by (simp add: js_lt_def num_def)

lemma js_rem_num: "0 < b \<Longrightarrow> js_rem (num a) (num b) = num (a mod b)"
proof -
  assume b: "0 < b"
  have f: "\<lfloor>(of_nat a :: rat) / of_nat b\<rfloor> = int (a div b)"
    by (simp add: floor_divide_of_nat_eq)
  have "(of_nat a :: rat) - of_nat b * of_nat (a div b) = of_nat (a mod b)"
    by (metis add_diff_cancel_left' mult_div_mod_eq of_nat_add of_nat_mult)
  then show ?thesis using b f
    by (auto simp add: js_rem_def signed_zero_def Let_def num_def)
qed

lemma array_index_num [simp]: "array_index (num k) = Some k"
  by (simp add: array_index_def num_def)

lemma to_unsigned_long_num: "w < 2 ^ 32 \<Longrightarrow> to_unsigned_long (num w) = w"
proof -
  assume "w < 2 ^ 32"
  then have "int w < 2 ^ 32" by simp
  then have "int w mod 2 ^ 32 = int w" by simp
  then show ?thesis by (simp add: to_unsigned_long_def num_def)
qed

lemma to_number_numeral:
  "numeral k < (2::int) ^ 53 \<Longrightarrow> to_number (numeral k) = Finite (numeral k)"
  using to_number_of_int[of "numeral k"] by simp

lemma to_number_neg_numeral:
  "numeral k < (2::int) ^ 53 \<Longrightarrow> to_number (- numeral k) = Finite (- numeral k)"
  using to_number_of_int[of "- numeral k"] by simp

lemma to_number_1: "to_number 1 = Finite 1"
  using to_number_of_int[of 1] by simp

lemmas eval_tokens = get_tokens_from_ascii_def js_def remove_comment_def is_line_terminator_def
  SP_def LF_def HASH_def CR_def TAB_def

lemmas eval_parseInt = parseInt_def Let_def is_StrWhiteSpaceChar_def is_radix_digit_def
  digit_value_def digits_value_def signed_zero_def to_number_numeral to_number_neg_numeral to_number_1

section \<open>The iterations of render\<close>

lemma set_data_num: "k < length d \<Longrightarrow> set_data d (num k) v = d[k := ToUint8Clamp v]"
  by (simp add: set_data_def)

lemma ToUint8Clamp_255 [simp]: "ToUint8Clamp (Finite 255) = 255"
  by (simp add: ToUint8Clamp_def)

lemma get_number_num:
  "get_number numbers (num k) = (if k < length numbers then numbers ! k else NaN)"
  by (simp add: get_number_def)

lemma render_pixel_paint:
  assumes f: "format = P1 \<or> format = P2 \<or> format = P3"
    and p: "p = yy * w + xx"
    and len: "4 * p + 3 < length d"
    and small: "4 * p + 3 < 2 ^ 53"
  shows "render_pixel format (num w) depth numbers (num yy) (num xx) d = paint format depth numbers p d"
proof -
  have yw: "yy * w < 2 ^ 53" using small p by simp
  have c255: "ToUint8Clamp (num 255) = 255" by (simp add: num_def)
  have pn: "js_add (js_mul (num yy) (num w)) (num xx) = num p"
    using small p by (simp add: js_mul_num[OF yw] js_add_num)
  show ?thesis
    unfolding render_pixel_def pn Let_def
    using f small len
    by (auto simp add: paint_def channel_def sample_index_def numbersPerPixel_def
        Let_def Finite_num js_mul_num js_add_num js_rem_num set_data_num c255)
qed

lemma length_paint [simp]: "length (paint format depth numbers p d) = length d"
  by (simp add: paint_def)

lemma length_fold_paint [simp]: "length (fold (paint format depth numbers) ps d) = length d"
  by (induction ps arbitrary: d) simp_all

lemma render_row_fold:
  assumes f: "format = P1 \<or> format = P2 \<or> format = P3"
    and len: "4 * (yy * w + w) \<le> length d"
    and small: "4 * (yy * w + w) < 2 ^ 53"
    and xx: "xx \<le> w"
  shows "render_row format (num w) depth numbers (num yy) (num xx) d
           = Some (fold (paint format depth numbers) [yy * w + xx ..< yy * w + w] d)"
  using xx len
proof (induction "w - xx" arbitrary: xx d)
  case 0
  then have "xx = w" by simp
  then show ?case by (subst render_row.simps) simp
next
  case (Suc n)
  then have lt: "xx < w" by simp
  have s1: "js_add (num xx) (Finite 1) = num (Suc xx)"
    using js_add_num[of xx 1] lt small by (simp add: Finite_num)
  have pp: "render_pixel format (num w) depth numbers (num yy) (num xx) d
      = paint format depth numbers (yy * w + xx) d"
    using lt small Suc.prems by (intro render_pixel_paint[OF f]) simp_all
  have "render_row format (num w) depth numbers (num yy) (num (Suc xx))
          (paint format depth numbers (yy * w + xx) d)
        = Some (fold (paint format depth numbers) [yy * w + Suc xx ..< yy * w + w]
            (paint format depth numbers (yy * w + xx) d))"
    using Suc.hyps(2) lt Suc.prems by (intro Suc.hyps(1)) simp_all
  moreover have "[yy * w + xx ..< yy * w + w] = (yy * w + xx) # [yy * w + Suc xx ..< yy * w + w]"
    using lt by (simp add: upt_conv_Cons)
  ultimately show ?case
    using lt by (subst render_row.simps) (simp add: s1 pp)
qed

lemma render_rows_fold:
  assumes f: "format = P1 \<or> format = P2 \<or> format = P3"
    and w: "0 < w"
    and len: "4 * (h * w) \<le> length d"
    and small: "4 * (h * w) < 2 ^ 53"
    and yy: "yy \<le> h"
  shows "render_rows format (num w, num h) depth numbers (num yy) d
           = Some (fold (paint format depth numbers) [yy * w ..< h * w] d)"
  using yy len
proof (induction "h - yy" arbitrary: yy d)
  case 0
  then have "yy = h" by simp
  then show ?case by (subst render_rows.simps) simp
next
  case (Suc n)
  then have lt: "yy < h" by simp
  then have "Suc yy * w \<le> h * w" by (intro mult_le_mono1) simp
  then have le: "yy * w + w \<le> h * w" by (simp add: add.commute)
  have "h \<le> h * w" using w by simp
  then have "yy + 1 < 2 ^ 53" using lt small by linarith
  then have s1: "js_add (num yy) (Finite 1) = num (Suc yy)"
    using js_add_num[of yy 1] by (simp add: Finite_num)
  have row: "render_row format (num w) depth numbers (num yy) (Finite 0) d
      = Some (fold (paint format depth numbers) [yy * w + 0 ..< yy * w + w] d)"
    unfolding Finite_num using le small Suc.prems by (intro render_row_fold[OF f]) simp_all
  have "render_rows format (num w, num h) depth numbers (num (Suc yy))
          (fold (paint format depth numbers) [yy * w ..< yy * w + w] d)
        = Some (fold (paint format depth numbers) [Suc yy * w ..< h * w]
            (fold (paint format depth numbers) [yy * w ..< yy * w + w] d))"
    using Suc.hyps(2) lt Suc.prems by (intro Suc.hyps(1)) simp_all
  moreover have "[yy * w ..< h * w] = [yy * w ..< yy * w + w] @ [Suc yy * w ..< h * w]"
    using upt_add_eq_append[of "yy * w" "yy * w + w" "h * w - (yy * w + w)"] le
    by (simp add: add.commute)
  ultimately show ?case
    using lt row by (subst render_rows.simps) (simp add: s1)
qed

lemma detect_format_cases:
  "detect_format ascii = Inr format \<Longrightarrow> format = P1 \<or> format = P2 \<or> format = P3"
  by (auto simp add: detect_format_def MAGICS_def Let_def split: if_splits)

lemma parse_render:
  assumes "detect_format ascii = Inr format"
  shows "parse cap ascii =
     render cap format
       (get_number (numbers_of format ascii) (Finite 0), get_number (numbers_of format ascii) (Finite 1))
       (depth_of format ascii) (drop (hdrsize format) (numbers_of format ascii))"
  using detect_format_cases[OF assms] assms
  by (auto simp add: parse_def NetPBMImage_def numbers_of_def depth_of_def hdrsize_def Let_def)

lemma new_ImageData_valid:
  assumes "valid_size cap w h"
  shows "new_ImageData cap (num w) (num h) = Inr \<lparr>width = w, height = h, data = replicate (4 * w * h) 0\<rparr>"
proof -
  have "to_unsigned_long (num w) = w" "to_unsigned_long (num h) = h"
    using assms by (simp_all add: valid_size_def to_unsigned_long_num)
  moreover have "\<not> min cap (2 ^ 53 - 1) < 4 * w * h"
  proof -
    define n where "n = 4 * w * h"
    from assms have "n \<le> cap" "n < 2 ^ 53" unfolding valid_size_def n_def by blast+
    then have "\<not> min cap (2 ^ 53 - 1) < n" by simp
    then show ?thesis unfolding n_def .
  qed
  moreover have "w \<noteq> 0" "h \<noteq> 0" using assms by (simp_all add: valid_size_def)
  ultimately show ?thesis by (simp add: new_ImageData_def Let_def)
qed

lemma render_valid:
  assumes f: "format = P1 \<or> format = P2 \<or> format = P3" and v: "valid_size cap w h"
  shows "render cap format (num w, num h) depth numbers =
     Some (Inr \<lparr>width = w, height = h,
       data = fold (paint format depth numbers) [0 ..< w * h] (replicate (4 * w * h) 0)\<rparr>)"
proof -
  have "render_rows format (num w, num h) depth numbers (num 0) (replicate (4 * w * h) 0)
      = Some (fold (paint format depth numbers) [0 * w ..< h * w] (replicate (4 * w * h) 0))"
    using v by (intro render_rows_fold[OF f]) (simp_all add: valid_size_def mult.commute mult.left_commute)
  then show ?thesis
    using new_ImageData_valid[OF v] by (simp add: render_def Finite_num mult.commute)
qed

text \<open>The bytes of the painted buffer.\<close>

lemma paint_nth_other:
  "k < 4 * p \<or> 4 * p + 3 < k \<Longrightarrow> paint format depth numbers p d ! k = d ! k"
  by (auto simp add: paint_def)

lemma paint_nth_same:
  assumes "4 * p + 3 < length d"
  shows "paint format depth numbers p d ! (4 * p) = ToUint8Clamp (channel format depth numbers p 0)"
    and "paint format depth numbers p d ! (4 * p + 1) = ToUint8Clamp (channel format depth numbers p 1)"
    and "paint format depth numbers p d ! (4 * p + 2) = ToUint8Clamp (channel format depth numbers p 2)"
    and "paint format depth numbers p d ! (4 * p + 3) = 255"
  using assms by (simp_all add: paint_def)

lemma fold_paint_nth:
  assumes "p < n" "4 * n \<le> length d" "i < 4"
  shows "fold (paint format depth numbers) [0 ..< n] d ! (4 * p + i)
     = (if i = 3 then 255 else ToUint8Clamp (channel format depth numbers p i))"
  using assms
proof (induction n)
  case 0
  then show ?case by simp
next
  case (Suc n)
  let ?d = "fold (paint format depth numbers) [0 ..< n] d"
  have fold: "fold (paint format depth numbers) [0 ..< Suc n] d = paint format depth numbers n ?d"
    by simp
  have len: "4 * n + 3 < length ?d" using Suc.prems by simp
  show ?case
  proof (cases "p = n")
    case True
    have "i = 0 \<or> i = 1 \<or> i = 2 \<or> i = 3" using Suc.prems by linarith
    then show ?thesis unfolding fold True using paint_nth_same[OF len, of format depth numbers]
      by (elim disjE) simp_all
  next
    case False
    then have p: "p < n" using Suc.prems by simp
    then have "4 * p + i < 4 * n" using Suc.prems by simp
    then have "paint format depth numbers n ?d ! (4 * p + i) = ?d ! (4 * p + i)"
      by (intro paint_nth_other) simp
    then show ?thesis unfolding fold using Suc.IH[OF p] Suc.prems by simp
  qed
qed

text \<open>The image a well-formed header gives, byte by byte.\<close>

lemma parse_image:
  assumes "detect_format ascii = Inr format"
    and "take 2 (numbers_of format ascii) = [num w, num h]"
    and "valid_size cap w h"
  shows "\<exists>img. parse cap ascii = Some (Inr img) \<and> width img = w \<and> height img = h
      \<and> length (data img) = 4 * w * h
      \<and> (\<forall>p < w * h. data img ! (4 * p + 3) = 255
          \<and> (\<forall>i < 3. data img ! (4 * p + i) =
                ToUint8Clamp (channel format (depth_of format ascii)
                  (drop (hdrsize format) (numbers_of format ascii)) p i)))"
proof -
  from assms(2) have "length (numbers_of format ascii) \<ge> 2"
    by (metis length_take list.size(3,4) min.cobounded1 One_nat_def Suc_1 add.commute plus_1_eq_Suc)
  with assms(2) have g: "get_number (numbers_of format ascii) (Finite 0) = num w"
    "get_number (numbers_of format ascii) (Finite 1) = num h"
    by (auto simp add: Finite_num get_number_num dest: arg_cong[where f = "\<lambda>xs. xs ! 0"] arg_cong[where f = "\<lambda>xs. xs ! 1"])
  let ?d = "fold (paint format (depth_of format ascii) (drop (hdrsize format) (numbers_of format ascii)))
      [0 ..< w * h] (replicate (4 * w * h) 0)"
  have "parse cap ascii = Some (Inr \<lparr>width = w, height = h, data = ?d\<rparr>)"
    unfolding parse_render[OF assms(1)] g
    by (rule render_valid[OF detect_format_cases[OF assms(1)] assms(3)])
  moreover have "\<forall>p < w * h. ?d ! (4 * p + 3) = 255
          \<and> (\<forall>i < 3. ?d ! (4 * p + i) =
                ToUint8Clamp (channel format (depth_of format ascii)
                  (drop (hdrsize format) (numbers_of format ascii)) p i))"
    by (auto simp add: fold_paint_nth)
  ultimately show ?thesis by simp
qed

lemma parse_fold:
  assumes "detect_format ascii = Inr format"
    and "take 2 (numbers_of format ascii) = [num w, num h]"
    and "valid_size cap w h"
  shows "parse cap ascii = Some (Inr \<lparr>width = w, height = h,
      data = fold (paint format (depth_of format ascii) (drop (hdrsize format) (numbers_of format ascii)))
        [0 ..< w * h] (replicate (4 * w * h) 0)\<rparr>)"
proof -
  from assms(2) have "length (take 2 (numbers_of format ascii)) = 2" by simp
  then have l: "2 \<le> length (numbers_of format ascii)" by simp
  have "take 2 (numbers_of format ascii) ! 0 = num w" "take 2 (numbers_of format ascii) ! 1 = num h"
    using assms(2) by simp_all
  then have "numbers_of format ascii ! 0 = num w" "numbers_of format ascii ! 1 = num h"
    by simp_all
  then have g: "get_number (numbers_of format ascii) (Finite 0) = num w"
    "get_number (numbers_of format ascii) (Finite 1) = num h"
    using l by (auto simp add: Finite_num get_number_num)
  show ?thesis
    unfolding parse_render[OF assms(1)] g
    by (rule render_valid[OF detect_format_cases[OF assms(1)] assms(3)])
qed

lemma length_concat_quads:
  "(\<And>q. length (f q) = 4) \<Longrightarrow> length (concat (map f [0 ..< n])) = 4 * n"
  by (induction n) simp_all

lemma concat_quads_nth:
  assumes "\<And>q. length (f q) = 4" "p < n" "i < 4"
  shows "concat (map f [0 ..< n]) ! (4 * p + i) = f p ! i"
  using assms(2)
proof (induction n)
  case 0
  then show ?case by simp
next
  case (Suc n)
  have l: "length (concat (map f [0 ..< n])) = 4 * n" using assms(1) by (rule length_concat_quads)
  show ?case
  proof (cases "p = n")
    case True
    then show ?thesis using l by (simp add: nth_append)
  next
    case False
    then have "p < n" using Suc.prems by simp
    moreover from this have "4 * p + i < 4 * n" using assms(3) by simp
    ultimately show ?thesis using Suc.IH l by (simp add: nth_append)
  qed
qed

lemma fold_paint_concat:
  "fold (paint format depth numbers) [0 ..< n] (replicate (4 * n) 0) =
     concat (map (\<lambda>p. [ToUint8Clamp (channel format depth numbers p 0),
                        ToUint8Clamp (channel format depth numbers p 1),
                        ToUint8Clamp (channel format depth numbers p 2), 255]) [0 ..< n])"
  (is "?l = concat (map ?f _)")
proof (rule nth_equalityI)
  show len: "length ?l = length (concat (map ?f [0 ..< n]))"
    by (simp add: length_concat_quads)
  fix k assume "k < length ?l"
  then have k: "k < 4 * n" by simp
  define p i where "p = k div 4" and "i = k mod 4"
  then have pi: "k = 4 * p + i" "p < n" "i < 4" using k by auto
  have "i = 0 \<or> i = 1 \<or> i = 2 \<or> i = 3" using pi(3) by linarith
  then have "?f p ! i = (if i = 3 then 255 else ToUint8Clamp (channel format depth numbers p i))"
    by (elim disjE) simp_all
  moreover have "?l ! (4 * p + i) = (if i = 3 then 255 else ToUint8Clamp (channel format depth numbers p i))"
    using pi by (intro fold_paint_nth) simp_all
  moreover have "concat (map ?f [0 ..< n]) ! (4 * p + i) = ?f p ! i"
    using pi by (intro concat_quads_nth) simp_all
  ultimately show "?l ! k = concat (map ?f [0 ..< n]) ! k" unfolding pi(1) by simp
qed

text \<open>The value of a channel in the cases the claims are about.\<close>

lemma channel_missing:
  assumes "length numbers \<le> sample_index format p i"
  shows "ToUint8Clamp (channel format depth numbers p i) = 0"
  using assms
  by (simp add: channel_def get_number_num js_mul_def js_div_def js_sub_def js_add_def
      ToUint8Clamp_def Let_def)

lemma bitmap_white: "js_sub (Finite 255) (js_mul (Finite 0) (Finite 255)) = Finite 255"
  by (simp add: js_mul_def js_sub_def js_add_def signed_zero_def to_number_numeral)

lemma to_number_0: "to_number 0 = Finite 0"
  by (simp add: to_number_def)

lemma bitmap_black: "js_sub (Finite 255) (js_mul (Finite 1) (Finite 255)) = Finite 0"
  by (simp add: js_mul_def js_sub_def js_add_def to_number_numeral to_number_0)

lemma channel_bitmap:
  assumes "p < length numbers" "numbers ! p = num b" "b \<le> 1"
  shows "ToUint8Clamp (channel P1 depth numbers p i) = of_nat (255 - b * 255)"
proof -
  have g: "get_number numbers (num p) = num b" using assms(1,2) by (simp add: get_number_num)
  have c: "channel P1 depth numbers p i = js_sub (Finite 255) (js_mul (num b) (Finite 255))"
    by (simp add: channel_def sample_index_def g)
  have "b = 0 \<or> b = 1" using assms(3) by linarith
  then show ?thesis
  proof
    assume "b = 0"
    then show ?thesis unfolding c num_def by (simp add: bitmap_white ToUint8Clamp_def)
  next
    assume "b = 1"
    then show ?thesis unfolding c num_def by (simp add: bitmap_black ToUint8Clamp_def)
  qed
qed

lemma scaled_in_range:
  assumes "1 \<le> d" "0 \<le> s" "s \<le> d"
  shows "\<exists>r. js_mul (js_div (Finite s) (Finite d)) (Finite 255) = Finite r \<and> 0 \<le> r \<and> r \<le> 255"
proof (cases "s = 0")
  case True
  then show ?thesis using assms(1) by (simp add: js_div_def js_mul_def signed_zero_def)
next
  case False
  then have q: "0 < s / d" "s / d \<le> of_int 1" using assms by simp_all
  from to_number_le[OF q] obtain r1 where r1: "to_number (s / d) = Finite r1" "0 \<le> r1" "r1 \<le> 1"
    by auto
  have dv: "js_div (Finite s) (Finite d) = Finite r1"
    using False assms(1) r1(1) by (simp add: js_div_def)
  show ?thesis
  proof (cases "r1 = 0")
    case True
    then show ?thesis unfolding dv by (simp add: js_mul_def signed_zero_def)
  next
    case False
    then have q2: "0 < r1 * 255" "r1 * 255 \<le> of_int 255" using r1 by simp_all
    from to_number_le[OF q2] obtain r where "to_number (r1 * 255) = Finite r" "0 \<le> r" "r \<le> 255"
      by auto
    then show ?thesis unfolding dv using False by (simp add: js_mul_def)
  qed
qed

lemma round_half_even_0 [simp]: "round_half_even 0 = 0"
  using round_half_even_of_int[of 0] by simp

lemma ToUint8Clamp_in_range:
  assumes "0 \<le> r" "r \<le> 255"
  shows "unat (ToUint8Clamp (Finite r)) = nat (round_half_even r)"
proof -
  have lo: "0 \<le> round_half_even r" using assms(1) by (intro round_half_even_ge) simp
  have hi: "round_half_even r \<le> 255" using assms(2) by (intro round_half_even_le) simp
  have w: "unat (word_of_int (round_half_even r) :: 8 word) = nat (round_half_even r)"
    using lo hi by (simp add: unat_eq_nat_uint uint_word_of_int)
  show ?thesis
  proof (cases "r \<le> 0")
    case True
    then have "r = 0" using assms(1) by simp
    then show ?thesis by (simp add: ToUint8Clamp_def)
  next
    case False
    show ?thesis
    proof (cases "255 \<le> r")
      case True
      then have "r = of_int 255" using assms(2) by simp
      then have "round_half_even r = 255" by (simp only: round_half_even_of_int)
      then show ?thesis using True False by (simp add: ToUint8Clamp_def)
    next
      case False
      then show ?thesis using \<open>\<not> r \<le> 0\<close> w by (simp add: ToUint8Clamp_def)
    qed
  qed
qed

lemma scaled_saturates:
  assumes "0 \<le> d" "js_lt (Finite d) sv"
  shows "ToUint8Clamp (js_mul (js_div sv (Finite d)) (Finite 255)) = 255"
proof (cases "d = 0")
  case True
  from assms(2) have "sv = PosInf \<or> (\<exists>s. sv = Finite s \<and> 0 < s)"
    unfolding True by (cases sv) (simp_all add: js_lt_def)
  then show ?thesis unfolding True
    by (auto simp add: js_div_def js_mul_def signed_inf_def ToUint8Clamp_def)
next
  case False
  then have d: "0 < d" using assms(1) by simp
  then have d0: "d \<noteq> 0" "\<not> d < 0" by simp_all
  from assms(2) d have "sv = PosInf \<or> (\<exists>s. sv = Finite s \<and> d < s)"
    by (cases sv) (simp_all add: js_lt_def)
  then show ?thesis
  proof
    assume "sv = PosInf"
    then show ?thesis using d0
      by (simp add: js_div_def js_mul_def signed_inf_def ToUint8Clamp_def)
  next
    assume "\<exists>s. sv = Finite s \<and> d < s"
    then obtain s where s: "sv = Finite s" "d < s" by auto
    then have s0: "s \<noteq> 0" "\<not> s < 0" using d by simp_all
    have "of_int 1 \<le> s / d" using s(2) d by simp
    from to_number_ge[OF _ _ this]
    have "to_number (s / d) = PosInf \<or> (\<exists>r. to_number (s / d) = Finite r \<and> 1 \<le> r)" by simp
    then show ?thesis
    proof
      assume "to_number (s / d) = PosInf"
      then show ?thesis using s(1) s0 d0
        by (simp add: js_div_def js_mul_def signed_inf_def ToUint8Clamp_def)
    next
      assume "\<exists>r. to_number (s / d) = Finite r \<and> 1 \<le> r"
      then obtain r1 where r1: "to_number (s / d) = Finite r1" "1 \<le> r1" by auto
      then have "of_int 255 \<le> r1 * 255" by simp
      from to_number_ge[OF _ _ this]
      have "to_number (r1 * 255) = PosInf \<or> (\<exists>r. to_number (r1 * 255) = Finite r \<and> 255 \<le> r)"
        by simp
      moreover have "js_mul (js_div sv (Finite d)) (Finite 255) = to_number (r1 * 255)"
        using s(1) s0 d0 r1 by (simp add: js_div_def js_mul_def)
      ultimately show ?thesis by (auto simp add: ToUint8Clamp_def)
    qed
  qed
qed

text \<open>The same for any maxValue whose sign is not negative.\<close>

lemma scaled_saturates_number:
  assumes "\<not> is_neg dv" "js_lt dv sv"
  shows "ToUint8Clamp (js_mul (js_div sv dv) (Finite 255)) = 255"
proof (cases dv)
  case (Finite d)
  then have "0 \<le> d" using assms(1) by simp
  then show ?thesis using assms(2) unfolding Finite by (rule scaled_saturates)
qed (use assms in \<open>simp_all add: js_lt_def split: if_splits\<close>)

section \<open>The tokenizer\<close>

lemma text_runs_Nil [simp]: "text_runs sep [] = []"
  by (simp add: text_runs.simps)

lemma text_runs_sep [simp]: "sep c \<Longrightarrow> text_runs sep (c # s) = text_runs sep s"
  by (subst (1 2) text_runs.simps) simp

lemma text_runs_run:
  "\<not> sep c \<Longrightarrow> text_runs sep (c # s) =
     (c # takeWhile (\<lambda>x. \<not> sep x) s) # text_runs sep (dropWhile (\<lambda>x. \<not> sep x) s)"
  by (subst text_runs.simps) simp

lemma text_runs_append_sep:
  "sep c \<Longrightarrow> text_runs sep (xs @ c # ys) = text_runs sep xs @ text_runs sep ys"
proof (induction xs rule: length_induct)
  case (1 xs)
  show ?case
  proof (cases xs)
    case Nil
    then show ?thesis using 1(2) by simp
  next
    case (Cons a xs')
    show ?thesis
    proof (cases "sep a")
      case True
      then show ?thesis using 1 Cons by simp
    next
      case False
      have t: "takeWhile (\<lambda>x. \<not> sep x) (xs' @ c # ys) = takeWhile (\<lambda>x. \<not> sep x) xs'"
        using 1(2) by (induction xs') simp_all
      have d: "dropWhile (\<lambda>x. \<not> sep x) (xs' @ c # ys) = dropWhile (\<lambda>x. \<not> sep x) xs' @ c # ys"
        using 1(2) by (induction xs') simp_all
      have "length (dropWhile (\<lambda>x. \<not> sep x) xs') < length xs"
        using Cons by (simp add: le_imp_less_Suc length_dropWhile_le)
      then have "text_runs sep (dropWhile (\<lambda>x. \<not> sep x) xs' @ c # ys)
          = text_runs sep (dropWhile (\<lambda>x. \<not> sep x) xs') @ text_runs sep ys"
        using 1 by blast
      then show ?thesis using False Cons by (simp add: text_runs_run t d)
    qed
  qed
qed

lemma text_runs_cong:
  "(\<And>x. x \<in> set s \<Longrightarrow> p x = q x) \<Longrightarrow> text_runs p s = text_runs q s"
proof (induction s rule: length_induct)
  case (1 s)
  show ?case
  proof (cases s)
    case Nil
    then show ?thesis by simp
  next
    case (Cons a s')
    have pq: "\<And>x. x \<in> set s' \<Longrightarrow> p x = q x" using 1(2) Cons by simp
    then have tk: "takeWhile (\<lambda>x. \<not> p x) s' = takeWhile (\<lambda>x. \<not> q x) s'"
      by (intro takeWhile_cong) simp_all
    have dr: "dropWhile (\<lambda>x. \<not> p x) s' = dropWhile (\<lambda>x. \<not> q x) s'"
      using pq by (intro dropWhile_cong) simp_all
    have r1: "text_runs p s' = text_runs q s'" using 1(1) Cons pq by simp
    have "length (dropWhile (\<lambda>x. \<not> q x) s') < length s"
      using Cons by (simp add: le_imp_less_Suc length_dropWhile_le)
    moreover have "\<And>x. x \<in> set (dropWhile (\<lambda>x. \<not> q x) s') \<Longrightarrow> p x = q x"
      using pq by (meson set_dropWhileD)
    ultimately have r2: "text_runs p (dropWhile (\<lambda>x. \<not> q x) s') = text_runs q (dropWhile (\<lambda>x. \<not> q x) s')"
      using 1(1) by blast
    have a: "p a = q a" using 1(2) Cons by simp
    show ?thesis
    proof (cases "q a")
      case True
      then show ?thesis using a Cons r1 by simp
    next
      case False
      then show ?thesis using a Cons r2 by (simp add: text_runs_run tk dr)
    qed
  qed
qed

text \<open>\<open>split\<close> by its first piece and the rest.\<close>

lemma split_not_Nil [simp]: "split sep s \<noteq> []"
  by (induction s) (auto split: list.splits)

lemma split_notin: "sep \<notin> set x \<Longrightarrow> split sep x = [x]"
  by (induction x) auto

lemma split_append_sep: "sep \<notin> set x \<Longrightarrow> split sep (x @ sep # s) = x # split sep s"
  by (induction x) auto

lemma text_runs_no_sep:
  assumes "\<forall>x\<in>set s. \<not> sep x"
  shows "text_runs sep s = (if s = [] then [] else [s])"
proof (cases s)
  case Nil
  then show ?thesis by simp
next
  case (Cons a s')
  then have a: "\<not> sep a" and s': "\<forall>x\<in>set s'. \<not> sep x" using assms by simp_all
  have t: "takeWhile (\<lambda>x. \<not> sep x) s' = s'" using s' by (simp add: takeWhile_eq_all_conv)
  have d: "dropWhile (\<lambda>x. \<not> sep x) s' = []" using s' by simp
  show ?thesis using text_runs_run[of sep a s'] a t d Cons by simp
qed

lemma split_takeWhile:
  "split sep s = takeWhile (\<lambda>c. c \<noteq> sep) s #
     (case dropWhile (\<lambda>c. c \<noteq> sep) s of [] \<Rightarrow> [] | c # r \<Rightarrow> split sep r)"
  by (induction s) (auto split: list.splits)

lemma filter_split_runs:
  "filter (\<lambda>x. 0 < length x) (split sep s) = text_runs (\<lambda>c. c = sep) s"
proof (induction s rule: length_induct)
  case (1 s)
  define t where "t = takeWhile (\<lambda>c. c \<noteq> sep) s"
  define u where "u = dropWhile (\<lambda>c. c \<noteq> sep) s"
  have tu: "t @ u = s" unfolding t_def u_def by (rule takeWhile_dropWhile_id)
  have n: "\<forall>x\<in>set t. \<not> x = sep" unfolding t_def using set_takeWhileD[of _ "\<lambda>c. c \<noteq> sep" s] by blast
  have run: "text_runs (\<lambda>c. c = sep) t = (if t = [] then [] else [t])"
    using n by (rule text_runs_no_sep)
  have sp: "split sep s = t # (case u of [] \<Rightarrow> [] | c # r \<Rightarrow> split sep r)"
    unfolding t_def u_def by (rule split_takeWhile)
  show ?case
  proof (cases u)
    case Nil
    then have "t = s" using tu by simp
    then show ?thesis using sp run Nil by auto
  next
    case (Cons c r)
    have "u \<noteq> [] \<Longrightarrow> \<not> hd u \<noteq> sep" unfolding u_def by (rule hd_dropWhile)
    then have c: "c = sep" using Cons by simp
    have len: "length r < length s" using tu Cons by (metis length_append length_Cons less_add_Suc2 add_Suc_right less_Suc_eq trans_less_add2)
    have ih: "filter (\<lambda>x. 0 < length x) (split sep r) = text_runs (\<lambda>c. c = sep) r"
      using 1 len by blast
    have "text_runs (\<lambda>c. c = sep) (t @ sep # r)
        = text_runs (\<lambda>c. c = sep) t @ text_runs (\<lambda>c. c = sep) r"
      by (rule text_runs_append_sep) simp
    moreover have "t @ sep # r = s" using tu Cons c by simp
    ultimately have tr: "text_runs (\<lambda>c. c = sep) s
        = text_runs (\<lambda>c. c = sep) t @ text_runs (\<lambda>c. c = sep) r" by simp
    show ?thesis unfolding sp tr run Cons using ih by simp
  qed
qed

text \<open>Joining lines with a space or with a line feed gives the same runs.\<close>

lemma text_runs_join:
  assumes "\<forall>l\<in>set ls. b \<notin> set l"
  shows "text_runs (\<lambda>c. c = a) (join a ls) = text_runs (\<lambda>c. c = a \<or> c = b) (join b ls)"
  using assms
proof (induction a ls rule: join.induct)
  case (1 sep)
  then show ?case by simp
next
  case (2 sep x)
  then have "text_runs (\<lambda>c. c = sep) x = text_runs (\<lambda>c. c = sep \<or> c = b) x"
    by (intro text_runs_cong) auto
  then show ?case by simp
next
  case (3 sep x y ys)
  have x: "text_runs (\<lambda>c. c = sep) x = text_runs (\<lambda>c. c = sep \<or> c = b) x"
    using 3(2) by (intro text_runs_cong) auto
  have "text_runs (\<lambda>c. c = sep) (join sep (y # ys))
      = text_runs (\<lambda>c. c = sep \<or> c = b) (join b (y # ys))"
    using 3 by simp
  then show ?case using x by (simp add: text_runs_append_sep)
qed

lemma split_no_sep: "\<forall>l\<in>set (split sep s). sep \<notin> set l"
  by (induction s) (auto split: list.splits)

lemma remove_comment_subset: "x \<in> set (remove_comment l) \<Longrightarrow> x \<in> set l"
  unfolding remove_comment_def
  by (auto dest: set_takeWhileD set_dropWhileD)

lemma tokens_runs:
  "get_tokens_from_ascii ascii = text_runs (\<lambda>c. c = SP \<or> c = LF) (remaining_text ascii)"
proof -
  let ?ls = "map remove_comment (split LF (drop 2 ascii))"
  have "\<forall>l\<in>set ?ls. LF \<notin> set l"
    using split_no_sep[of LF "drop 2 ascii"] by (auto dest: remove_comment_subset)
  then have "text_runs (\<lambda>c. c = SP) (join SP ?ls) = text_runs (\<lambda>c. c = SP \<or> c = LF) (join LF ?ls)"
    by (rule text_runs_join)
  then show ?thesis
    unfolding get_tokens_from_ascii_def remaining_text_def filter_split_runs .
qed

lemma HASH_not_terminator [simp]: "\<not> is_line_terminator HASH"
  by (simp add: is_line_terminator_def HASH_def LF_def CR_def)

lemma remove_comment_line:
  assumes "HASH \<notin> set pre" "\<forall>x\<in>set c. \<not> is_line_terminator x"
    and "post = [] \<or> is_line_terminator (hd post)"
  shows "remove_comment (pre @ HASH # c @ post) = pre @ post"
proof -
  have t: "takeWhile (\<lambda>x. x \<noteq> HASH) (pre @ HASH # c @ post) = pre"
    using assms(1) by (induction pre) auto
  have d: "dropWhile (\<lambda>x. x \<noteq> HASH) (pre @ HASH # c @ post) = HASH # c @ post"
    using assms(1) by (induction pre) auto
  have "dropWhile (\<lambda>x. \<not> is_line_terminator x) post = post"
    using assms(3) by (cases post) auto
  then have "dropWhile (\<lambda>x. \<not> is_line_terminator x) (c @ post) = post"
    using assms(2) by (induction c) auto
  then show ?thesis by (simp add: remove_comment_def t d)
qed

lemma split_join:
  "ls \<noteq> [] \<Longrightarrow> \<forall>l\<in>set ls. sep \<notin> set l \<Longrightarrow> split sep (join sep ls) = ls"
proof (induction sep ls rule: join.induct)
  case (1 sep)
  then show ?case by simp
next
  case (2 sep x)
  then show ?case by (simp add: split_notin)
next
  case (3 sep x y ys)
  then show ?case by (simp add: split_append_sep)
qed

lemma to_number_not_NaN [simp]: "to_number q \<noteq> NaN"
  by (simp add: to_number_def Let_def)







subsection \<open>Further facts the properties use\<close>

lemma graymap_header:
  assumes "format = P2 \<or> format = P3"
    and "process_ascii ascii = num w # num h # depth # samples"
  shows "take 2 (numbers_of format ascii) = [num w, num h]"
    and "depth_of format ascii = depth"
    and "drop (hdrsize format) (numbers_of format ascii) = samples"
  using assms by (auto simp add: numbers_of_def depth_of_def hdrsize_def Finite_num get_number_num)

lemma parse_graymap:
  assumes "detect_format ascii = Inr format" "format = P2 \<or> format = P3"
    and "process_ascii ascii = num w # num h # depth # samples"
    and "valid_size cap w h"
  shows "parse cap ascii = Some (Inr \<lparr>width = w, height = h,
      data = concat (map (\<lambda>p. [ToUint8Clamp (channel format depth samples p 0),
                                 ToUint8Clamp (channel format depth samples p 1),
                                 ToUint8Clamp (channel format depth samples p 2), 255]) [0 ..< w * h])\<rparr>)"
  using parse_fold[OF assms(1) graymap_header(1)[OF assms(2,3)] assms(4)]
  unfolding graymap_header[OF assms(2,3)]
  by (simp only: fold_paint_concat mult.assoc)

lemma header_number:
  assumes "format = P1 \<or> format = P2 \<or> format = P3" "k < 2"
  shows "get_number (numbers_of format ascii) (num k) =
     (if k < length (get_tokens_from_ascii ascii) then parseInt (get_tokens_from_ascii ascii ! k)
      else NaN)"
proof (cases "format = P1")
  case False
  then show ?thesis by (simp add: numbers_of_def process_ascii_def get_number_num)
next
  case True
  let ?t = "get_tokens_from_ascii ascii"
  show ?thesis
  proof (cases "k < length ?t")
    case True
    define hd2 where "hd2 = map parseInt (take 2 ?t)"
    define rest where "rest = map parseInt (map (\<lambda>c. [c]) (concat (drop 2 ?t)))"
    have n: "numbers_of format ascii = hd2 @ rest"
      using \<open>format = P1\<close> by (simp add: numbers_of_def process_ascii_P1_def Let_def hd2_def rest_def)
    have l: "k < length hd2" using True assms(2) by (simp add: hd2_def)
    then have "(hd2 @ rest) ! k = hd2 ! k" by (simp add: nth_append)
    also have "\<dots> = parseInt (?t ! k)" using True assms(2) by (simp add: hd2_def)
    finally have "(hd2 @ rest) ! k = parseInt (?t ! k)" .
    moreover have "k < length (hd2 @ rest)" using l by simp
    ultimately show ?thesis using True unfolding n get_number_num by simp
  next
    case False
    then have "drop 2 ?t = []" "take 2 ?t = ?t" using assms(2) by simp_all
    then show ?thesis using False \<open>format = P1\<close>
      by (simp add: numbers_of_def process_ascii_P1_def get_number_num Let_def)
  qed
qed

lemma to_unsigned_long_zero:
  "v \<in> {NaN, Finite 0, NegZero} \<Longrightarrow> to_unsigned_long v = 0"
  by (auto simp add: to_unsigned_long_def)

lemma text_runs_tokens:
  "t \<in> set (text_runs sep s) \<Longrightarrow> t \<noteq> [] \<and> (\<forall>c\<in>set t. \<not> sep c)"
proof (induction s arbitrary: t rule: length_induct)
  case (1 s)
  show ?case
  proof (cases s)
    case Nil
    then show ?thesis using 1(2) by simp
  next
    case (Cons a s')
    show ?thesis
    proof (cases "sep a")
      case True
      then have "t \<in> set (text_runs sep s')" using 1(2) Cons by simp
      moreover have "length s' < length s" using Cons by simp
      ultimately show ?thesis using 1(1) by blast
    next
      case False
      then have "t = a # takeWhile (\<lambda>x. \<not> sep x) s'
          \<or> t \<in> set (text_runs sep (dropWhile (\<lambda>x. \<not> sep x) s'))"
        using 1(2) Cons by (simp add: text_runs_run)
      then show ?thesis
      proof
        assume "t = a # takeWhile (\<lambda>x. \<not> sep x) s'"
        then show ?thesis using False by (auto dest: set_takeWhileD)
      next
        assume t: "t \<in> set (text_runs sep (dropWhile (\<lambda>x. \<not> sep x) s'))"
        have "length (dropWhile (\<lambda>x. \<not> sep x) s') < length s"
          using Cons by (simp add: le_imp_less_Suc length_dropWhile_le)
        then show ?thesis using 1(1) t by blast
      qed
    qed
  qed
qed

section \<open>Evaluation on given inputs\<close>

lemmas eval_format = detect_format_def MAGICS_def js_def Let_def

lemma to_number_half: "to_number (1 / 2) = Finite (1 / 2)" "to_number (255 / 2) = Finite (255 / 2)"
  using to_number_dyadic[of 1 "- 1"] to_number_dyadic[of 255 "- 1"] by simp_all

lemma floor_half: "\<lfloor>(255::rat) / 2\<rfloor> = 127"
  by (rule floor_unique) simp_all

lemma round_half_even_half: "round_half_even (255 / 2) = 128"
  by (simp add: round_half_even_def floor_half)

lemma scaled_half: "js_mul (js_div (Finite 1) (Finite 2)) (Finite 255) = Finite (255 / 2)"
  by (simp add: js_div_def js_mul_def to_number_half)

lemma round_tenth: "round_binary64 (2 / 51) = 1412894000743685 / 36028797018963968"
  by code_simp

lemma round_ten: "round_binary64 (360287970189639675 / 36028797018963968) = 10"
  by code_simp

lemma round_half_even_numeral [simp]: "round_half_even (numeral k) = numeral k"
  using round_half_even_of_int[of "numeral k"] by simp

lemma scaled_ten: "js_mul (js_div (Finite 10) (Finite 255)) (Finite 255) = Finite 10"
proof -
  have a: "to_number (2 / 51) = Finite (1412894000743685 / 36028797018963968)"
    by (simp add: to_number_def round_tenth)
  have b: "to_number (360287970189639675 / 36028797018963968) = Finite 10"
    by (simp add: to_number_def round_ten)
  show ?thesis by (simp add: js_div_def js_mul_def a b)
qed

text \<open>A list of quadruples, from its elements.\<close>

lemma quads_eqI:
  assumes "length xs = 4 * n" "\<And>q. length (f q) = 4"
    and "\<And>p i. p < n \<Longrightarrow> i < 4 \<Longrightarrow> xs ! (4 * p + i) = f p ! i"
  shows "xs = concat (map f [0 ..< n])"
proof (rule nth_equalityI)
  show "length xs = length (concat (map f [0 ..< n]))"
    using assms(1,2) by (simp add: length_concat_quads)
  fix k assume "k < length xs"
  then have k: "k < 4 * n" using assms(1) by simp
  define p i where "p = k div 4" and "i = k mod 4"
  then have pi: "k = 4 * p + i" "p < n" "i < 4" using k by auto
  show "xs ! k = concat (map f [0 ..< n]) ! k"
    unfolding pi(1) using assms(3)[OF pi(2,3)] concat_quads_nth[of f p n i, OF assms(2) pi(2,3)]
    by simp
qed

text \<open>A height that is not positive: \<open>render\<close> visits no pixel.\<close>

lemma render_rows_none:
  "\<not> js_lt y (snd image_size) \<Longrightarrow> render_rows format image_size depth numbers y d = Some d"
  by (subst render_rows.simps) simp

text \<open>
  The size \<open>-4294967295\<close> is 1 modulo \<open>2\<^sup>3\<^sup>2\<close>: the constructor of \<open>ImageData\<close> makes an
  image of one pixel.
\<close>

lemma wrapped_size:
  "new_ImageData 65536 (Finite (- 4294967295)) (Finite (- 4294967295))
      = Inr \<lparr>width = 1, height = 1, data = [0, 0, 0, 0]\<rparr>"
proof -
  have w: "to_unsigned_long (Finite (- 4294967295)) = 1"
    by (simp add: to_unsigned_long_def)
  have r: "replicate 4 (0 :: 8 word) = [0, 0, 0, 0]" by (simp add: numeral_eq_Suc)
  show ?thesis by (simp add: new_ImageData_def w r)
qed

text \<open>
  A comment that holds no carriage return, U+2028 or U+2029 is removed up to the end of
  its line, wherever it stands, and the tokens do not depend on what it holds.
\<close>

lemma comment_without_terminator:
  assumes "length magic = 2"
    and "\<forall>l \<in> set (before @ [pre @ c @ post] @ after). LF \<notin> set l"
    and "HASH \<notin> set pre"
    and "\<forall>x \<in> set c. \<not> is_line_terminator x"
    and "post = [] \<or> is_line_terminator (hd post)"
  shows "get_tokens_from_ascii (magic @ join LF (before @ [pre @ HASH # c @ post] @ after))
     = filter (\<lambda>x. 0 < length x)
         (split SP (join SP (map remove_comment before @ [pre @ post] @ map remove_comment after)))"
proof -
  let ?ls = "before @ [pre @ HASH # c @ post] @ after"
  have "\<forall>l \<in> set ?ls. LF \<notin> set l" using assms(2) by (auto simp add: HASH_def LF_def)
  then have "split LF (join LF ?ls) = ?ls" by (intro split_join) simp_all
  moreover have "remove_comment (pre @ HASH # c @ post) = pre @ post"
    using assms(3,4,5) by (rule remove_comment_line)
  ultimately show ?thesis using assms(1) by (simp add: get_tokens_from_ascii_def)
qed

text \<open>The input \<open>"P2\n#note\n2 1\n255\n10 20\n"\<close>: the comment line leaves no token.\<close>

lemma comment_example:
  "get_tokens_from_ascii (js ''P2\<newline>#note\<newline>2 1\<newline>255\<newline>10 20\<newline>'')
     = [js ''2'', js ''1'', js ''255'', js ''10'', js ''20'']
   \<and> process_ascii (js ''P2\<newline>#note\<newline>2 1\<newline>255\<newline>10 20\<newline>'')
     = [Finite 2, Finite 1, Finite 255, Finite 10, Finite 20]"
proof -
  have m: "length (js ''P2'') = 2" by (simp add: js_def)
  have l: "\<forall>l \<in> set ([ [] ] @ [ [] @ js ''note'' @ [] ] @ [js ''2 1'', js ''255'', js ''10 20'', []]). LF \<notin> set l"
    by (simp add: js_def LF_def)
  have h: "HASH \<notin> set []" by simp
  have c: "\<forall>x \<in> set (js ''note''). \<not> is_line_terminator x"
    by (simp add: js_def is_line_terminator_def LF_def CR_def)
  have p: "([] :: js_string) = [] \<or> is_line_terminator (hd [])" by simp
  have e: "js ''P2\<newline>#note\<newline>2 1\<newline>255\<newline>10 20\<newline>''
      = js ''P2'' @ join LF ([ [] ] @ [ [] @ HASH # js ''note'' @ [] ] @ [js ''2 1'', js ''255'', js ''10 20'', []])"
    by (simp add: js_def LF_def HASH_def)
  have t: "get_tokens_from_ascii (js ''P2\<newline>#note\<newline>2 1\<newline>255\<newline>10 20\<newline>'')
     = [js ''2'', js ''1'', js ''255'', js ''10'', js ''20'']"
    unfolding e comment_without_terminator[OF m l h c p]
    by (simp add: js_def remove_comment_def SP_def HASH_def)
  then show ?thesis by (simp add: process_ascii_def eval_parseInt js_def)
qed

section \<open>The properties\<close>

text \<open>
  C1, as stated, fails: the decoder has no check of the number of samples. The input
  \<open>"P2\n2 1\n255\n10\n"\<close>, one sample short, decodes to an image of two pixels, the
  second one black.
\<close>

theorem missing_sample_fails_counterexample:
  "parse 65536 (js ''P2\<newline>2 1\<newline>255\<newline>10\<newline>'')
     = Some (Inr \<lparr>width = 2, height = 1, data = [10, 10, 10, 255, 0, 0, 0, 255]\<rparr>)"
proof -
  let ?a = "js ''P2\<newline>2 1\<newline>255\<newline>10\<newline>''"
  have f: "detect_format ?a = Inr P2" by (simp add: eval_format)
  have n: "process_ascii ?a = num 2 # num 1 # Finite 255 # [Finite 10]"
    by (simp add: process_ascii_def eval_tokens eval_parseInt num_def)
  have v: "valid_size 65536 2 1" by (simp add: valid_size_def)
  have c0: "ToUint8Clamp (channel P2 (Finite 255) [Finite 10] 0 i) = 10" for i
    by (simp add: channel_def sample_index_def get_number_num scaled_ten ToUint8Clamp_def)
  have c1: "ToUint8Clamp (channel P2 (Finite 255) [Finite 10] (Suc 0) i) = 0" for i
    by (rule channel_missing) (simp add: sample_index_def)
  have u: "[0 ..< 2 * 1] = [0, 1]" by (simp add: upt_rec)
  show ?thesis
    using parse_graymap[OF f _ n v] unfolding u by (simp add: c0 c1)
qed

text \<open>
  C1, amended. For every format, when the header gives a width \<open>w\<close> and a height \<open>h\<close>
  the image buffer can hold and the number of available samples (tokens for P2 and P3,
  code units of the joined tokens for P1) is less than \<open>w * h\<close> times the channels per
  pixel, decoding does not fail: it returns the image of \<open>w\<close> by \<open>h\<close> pixels, in which
  every colour byte whose sample is missing is 0 (the blue byte of the last pixel is
  one of them) and every alpha byte is 255.
\<close>

theorem missing_samples_are_black:
  assumes "detect_format ascii = Inr format"
    and "take 2 (numbers_of format ascii) = [num w, num h]"
    and "valid_size cap w h"
    and "samples = drop (hdrsize format) (numbers_of format ascii)"
    and "length samples < w * h * channelsPerPixel format"
  shows "\<exists>img. parse cap ascii = Some (Inr img) \<and> width img = w \<and> height img = h
      \<and> length (data img) = 4 * w * h
      \<and> (\<forall>p < w * h. \<forall>i < 3. length samples \<le> sample_index format p i
            \<longrightarrow> data img ! (4 * p + i) = 0)
      \<and> data img ! (4 * (w * h - 1) + 2) = 0
      \<and> (\<forall>p < w * h. data img ! (4 * p + 3) = 255)"
proof -
  from parse_image[OF assms(1,2,3)] obtain img where
    img: "parse cap ascii = Some (Inr img)" "width img = w" "height img = h"
      "length (data img) = 4 * w * h"
    and al: "\<forall>p < w * h. data img ! (4 * p + 3) = 255"
    and ch: "\<forall>p < w * h. \<forall>i < 3. data img ! (4 * p + i) =
      ToUint8Clamp (channel format (depth_of format ascii) samples p i)"
    unfolding assms(4) by blast
  have black: "\<forall>p < w * h. \<forall>i < 3. length samples \<le> sample_index format p i
            \<longrightarrow> data img ! (4 * p + i) = 0"
    using ch by (simp add: channel_missing)
  have pos: "0 < w * h" using assms(3) by (simp add: valid_size_def)
  have "length samples \<le> sample_index format (w * h - 1) 2"
    using assms(5) pos by (auto simp add: sample_index_def channelsPerPixel_def split: if_splits)
  then have "data img ! (4 * (w * h - 1) + 2) = 0"
    using black[rule_format, of "w * h - 1" 2] pos by simp
  then show ?thesis using img black al by blast
qed

theorem missing_samples_are_black_witness:
  "detect_format (js ''P2\<newline>2 1\<newline>255\<newline>10\<newline>'') = Inr P2
   \<and> take 2 (numbers_of P2 (js ''P2\<newline>2 1\<newline>255\<newline>10\<newline>'')) = [num 2, num 1]
   \<and> valid_size 65536 2 1
   \<and> length (drop (hdrsize P2) (numbers_of P2 (js ''P2\<newline>2 1\<newline>255\<newline>10\<newline>''))) < 2 * 1 * channelsPerPixel P2
   \<and> (\<exists>img. parse 65536 (js ''P2\<newline>2 1\<newline>255\<newline>10\<newline>'') = Some (Inr img)
        \<and> width img = 2 \<and> height img = 1 \<and> length (data img) = 8
        \<and> data img ! 4 = 0 \<and> data img ! 5 = 0 \<and> data img ! 6 = 0
        \<and> data img ! 3 = 255 \<and> data img ! 7 = 255)"
proof -
  let ?a = "js ''P2\<newline>2 1\<newline>255\<newline>10\<newline>''"
  have f: "detect_format ?a = Inr P2" by (simp add: eval_format)
  have p: "numbers_of P2 ?a = [num 2, num 1, Finite 255, Finite 10]"
    by (simp add: numbers_of_def process_ascii_def eval_tokens eval_parseInt num_def)
  have n: "take 2 (numbers_of P2 ?a) = [num 2, num 1]" by (simp add: p)
  have v: "valid_size 65536 2 1" by (simp add: valid_size_def)
  have l: "length (drop (hdrsize P2) (numbers_of P2 ?a)) < 2 * 1 * channelsPerPixel P2"
    by (simp add: p hdrsize_def channelsPerPixel_def)
  from missing_samples_are_black[OF f n v refl l] obtain img where
    img: "parse 65536 ?a = Some (Inr img)" "width img = 2" "height img = 1"
      "length (data img) = 4 * 2 * 1"
    and bl: "\<forall>p < 2 * 1. \<forall>i < 3.
        length (drop (hdrsize P2) (numbers_of P2 ?a)) \<le> sample_index P2 p i
            \<longrightarrow> data img ! (4 * p + i) = 0"
    and al: "\<forall>p < 2 * 1. data img ! (4 * p + 3) = 255" by blast
  have s: "length (drop (hdrsize P2) (numbers_of P2 ?a)) \<le> sample_index P2 1 i" for i
    by (simp add: p hdrsize_def sample_index_def)
  have "data img ! (4 * 1 + 0) = 0" "data img ! (4 * 1 + 1) = 0" "data img ! (4 * 1 + 2) = 0"
    using bl[rule_format, of 1 0] bl[rule_format, of 1 1] bl[rule_format, of 1 2] s by simp_all
  moreover have "data img ! (4 * 0 + 3) = 255" "data img ! (4 * 1 + 3) = 255"
    using al[rule_format, of 0] al[rule_format, of 1] by simp_all
  ultimately have "parse 65536 ?a = Some (Inr img) \<and> width img = 2 \<and> height img = 1
      \<and> length (data img) = 8
      \<and> data img ! 4 = 0 \<and> data img ! 5 = 0 \<and> data img ! 6 = 0
      \<and> data img ! 3 = 255 \<and> data img ! 7 = 255" using img by simp
  then show ?thesis using f n v l by blast
qed

text \<open>
  C2, as stated, fails: the byte is not the floor of \<open>s / d * 255\<close>. For maxValue 2 and
  sample 1 the value is 127.5, its floor is 127, and the stored byte is 128.
\<close>

theorem scaled_channel_truncates_counterexample:
  "parse 65536 (js ''P2\<newline>1 1\<newline>2\<newline>1\<newline>'')
     = Some (Inr \<lparr>width = 1, height = 1, data = [128, 128, 128, 255]\<rparr>)
   \<and> \<lfloor>(1::rat) / 2 * 255\<rfloor> = 127"
proof -
  let ?a = "js ''P2\<newline>1 1\<newline>2\<newline>1\<newline>''"
  have f: "detect_format ?a = Inr P2" by (simp add: eval_format)
  have n: "process_ascii ?a = num 1 # num 1 # Finite 2 # [Finite 1]"
    by (simp add: process_ascii_def eval_tokens eval_parseInt num_def)
  have v: "valid_size 65536 1 1" by (simp add: valid_size_def)
  have c: "ToUint8Clamp (channel P2 (Finite 2) [Finite 1] 0 i) = 128" for i
    by (simp add: channel_def sample_index_def get_number_num scaled_half ToUint8Clamp_def
        round_half_even_half)
  show ?thesis
    using parse_graymap[OF f _ n v] by (simp add: c floor_half)
qed

text \<open>
  C2, amended. For every decoding of P2 or P3 with a header the image buffer can hold,
  a declared maxValue \<open>d \<ge> 1\<close> and a sample \<open>s\<close> with \<open>0 \<le> s \<le> d\<close>, the stored channel
  byte is the number \<open>s / d * 255\<close>, computed in binary64, rounded to the nearest integer
  with ties to even (the conversion of a \<open>Uint8ClampedArray\<close>), not truncated; for P2
  the red, green and blue bytes of a pixel hold the same value.
\<close>

theorem scaled_channel_rounds:
  assumes "detect_format ascii = Inr format" "format = P2 \<or> format = P3"
    and "process_ascii ascii = num w # num h # Finite d # samples"
    and "valid_size cap w h" "1 \<le> d"
    and "p < w * h" "i < 3" "sample_index format p i < length samples"
    and "samples ! sample_index format p i = Finite s" "0 \<le> s" "s \<le> d"
  shows "\<exists>img. parse cap ascii = Some (Inr img)
      \<and> uint (data img ! (4 * p + i))
          = round_half_even (val (js_mul (js_div (Finite s) (Finite d)) (Finite 255)))
      \<and> (format = P2 \<longrightarrow> data img ! (4 * p) = data img ! (4 * p + i)
            \<and> data img ! (4 * p + 1) = data img ! (4 * p + i)
            \<and> data img ! (4 * p + 2) = data img ! (4 * p + i))"
proof -
  note hdr = graymap_header[OF assms(2,3)]
  from parse_image[OF assms(1) hdr(1) assms(4)] obtain img where
    img: "parse cap ascii = Some (Inr img)"
    and ch: "\<forall>p < w * h. \<forall>i < 3. data img ! (4 * p + i) =
      ToUint8Clamp (channel format (Finite d) samples p i)"
    unfolding hdr by blast
  have g: "get_number samples (num (sample_index format p i)) = Finite s"
    using assms(8,9) by (simp add: get_number_num)
  have c: "channel format (Finite d) samples p i
        = js_mul (js_div (Finite s) (Finite d)) (Finite 255)"
  proof -
    have "format \<noteq> P1" using assms(2) by auto
    then show ?thesis by (simp add: channel_def g)
  qed
  from scaled_in_range[OF assms(5,10,11)] obtain r where
    r: "js_mul (js_div (Finite s) (Finite d)) (Finite 255) = Finite r" "0 \<le> r" "r \<le> 255"
    by auto
  have lo: "0 \<le> round_half_even r" using r(2) by (intro round_half_even_ge) simp
  have u: "unat (ToUint8Clamp (Finite r)) = nat (round_half_even r)"
    using r(2,3) by (rule ToUint8Clamp_in_range)
  have "uint (ToUint8Clamp (Finite r)) = int (unat (ToUint8Clamp (Finite r)))"
    by (rule uint_nat)
  also have "\<dots> = int (nat (round_half_even r))" by (simp only: u)
  also have "\<dots> = round_half_even r" using lo by simp
  finally have main: "uint (data img ! (4 * p + i))
      = round_half_even (val (js_mul (js_div (Finite s) (Finite d)) (Finite 255)))"
    using ch assms(6,7) c r(1) by simp
  have same: "data img ! (4 * p + j) = data img ! (4 * p + i)" if "format = P2" "j < 3" for j
  proof -
    have "channel format (Finite d) samples p j = channel format (Finite d) samples p i"
      using that(1) by (simp add: channel_def sample_index_def)
    then show ?thesis using ch assms(6,7) that(2) by simp
  qed
  have "format = P2 \<longrightarrow> data img ! (4 * p) = data img ! (4 * p + i)
            \<and> data img ! (4 * p + 1) = data img ! (4 * p + i)
            \<and> data img ! (4 * p + 2) = data img ! (4 * p + i)"
    using same[of 0] same[of 1] same[of 2] by simp
  then show ?thesis using img main by blast
qed

theorem scaled_channel_rounds_witness:
  "detect_format (js ''P2\<newline>1 1\<newline>2\<newline>1\<newline>'') = Inr P2
   \<and> process_ascii (js ''P2\<newline>1 1\<newline>2\<newline>1\<newline>'') = num 1 # num 1 # Finite 2 # [Finite 1]
   \<and> valid_size 65536 1 1 \<and> (1::rat) \<le> 2
   \<and> sample_index P2 0 0 < length [Finite 1] \<and> [Finite 1] ! sample_index P2 0 0 = Finite 1
   \<and> (\<exists>img. parse 65536 (js ''P2\<newline>1 1\<newline>2\<newline>1\<newline>'') = Some (Inr img)
        \<and> uint (data img ! 0) = 128 \<and> data img ! 1 = data img ! 0 \<and> data img ! 2 = data img ! 0)"
proof -
  let ?a = "js ''P2\<newline>1 1\<newline>2\<newline>1\<newline>''"
  have f: "detect_format ?a = Inr P2" by (simp add: eval_format)
  have n: "process_ascii ?a = num 1 # num 1 # Finite 2 # [Finite 1]"
    by (simp add: process_ascii_def eval_tokens eval_parseInt num_def)
  have v: "valid_size 65536 1 1" by (simp add: valid_size_def)
  have d: "(1::rat) \<le> 2" by simp
  have s: "sample_index P2 0 0 < length [Finite 1]" by (simp add: sample_index_def)
  have g: "[Finite 1] ! sample_index P2 0 0 = Finite 1" by (simp add: sample_index_def)
  from scaled_channel_rounds[OF f _ n v d _ _ s g] obtain img where
    "parse 65536 ?a = Some (Inr img)"
    "uint (data img ! (4 * 0 + 0))
          = round_half_even (val (js_mul (js_div (Finite 1) (Finite 2)) (Finite 255)))"
    "data img ! (4 * 0 + 1) = data img ! (4 * 0 + 0)" "data img ! (4 * 0 + 2) = data img ! (4 * 0 + 0)"
    by auto
  then have "parse 65536 ?a = Some (Inr img) \<and> uint (data img ! 0) = 128
      \<and> data img ! 1 = data img ! 0 \<and> data img ! 2 = data img ! 0"
    by (simp add: scaled_half round_half_even_half numeral_2_eq_2)
  then show ?thesis using f n v d s g by blast
qed

text \<open>
  C3, as stated, fails: the decoder validates no header token itself. A maxValue of 0
  gives an image (the division by zero saturates); a negative width is reduced modulo
  \<open>2\<^sup>3\<^sup>2\<close> by the \<open>ImageData\<close> constructor, and \<open>-4294967295\<close> gives an image of width 1
  that \<open>render\<close> leaves untouched.
\<close>

theorem malformed_header_fails_counterexample:
  "parse 65536 (js ''P2\<newline>1 1\<newline>0\<newline>5\<newline>'')
     = Some (Inr \<lparr>width = 1, height = 1, data = [255, 255, 255, 255]\<rparr>)
   \<and> parse 65536 (js ''P2\<newline>-4294967295 1\<newline>255\<newline>0\<newline>'')
     = Some (Inr \<lparr>width = 1, height = 1, data = [0, 0, 0, 0]\<rparr>)"
proof -
  let ?a = "js ''P2\<newline>1 1\<newline>0\<newline>5\<newline>''"
  have f: "detect_format ?a = Inr P2" by (simp add: eval_format)
  have n: "process_ascii ?a = num 1 # num 1 # Finite 0 # [Finite 5]"
    by (simp add: process_ascii_def eval_tokens eval_parseInt num_def)
  have v: "valid_size 65536 1 1" by (simp add: valid_size_def)
  have c: "ToUint8Clamp (channel P2 (Finite 0) [Finite 5] 0 i) = 255" for i
    by (simp add: channel_def sample_index_def get_number_num js_div_def js_mul_def
        signed_inf_def ToUint8Clamp_def)
  have one: "parse 65536 ?a = Some (Inr \<lparr>width = 1, height = 1, data = [255, 255, 255, 255]\<rparr>)"
    using parse_graymap[OF f _ n v] by (simp add: c)
  let ?b = "js ''P2\<newline>-4294967295 1\<newline>255\<newline>0\<newline>''"
  have g: "detect_format ?b = Inr P2" by (simp add: eval_format)
  have m: "process_ascii ?b = [Finite (- 4294967295), Finite 1, Finite 255, Finite 0]"
    by (simp add: process_ascii_def eval_tokens eval_parseInt)
  have w: "to_unsigned_long (Finite (- 4294967295)) = 1" "to_unsigned_long (Finite 1) = 1"
    by (simp_all add: to_unsigned_long_def)
  have r: "replicate 4 (0 :: 8 word) = [0, 0, 0, 0]" by (simp add: numeral_eq_Suc)
  have i: "new_ImageData 65536 (Finite (- 4294967295)) (Finite 1)
      = Inr \<lparr>width = 1, height = 1, data = [0, 0, 0, 0]\<rparr>"
    by (simp add: new_ImageData_def w r)
  have x: "render_row P2 (Finite (- 4294967295)) (Finite 255) [Finite 0] (Finite 0) (Finite 0) d = Some d"
    for d
    by (subst render_row.simps) (simp add: js_lt_def)
  have y1: "render_rows P2 (Finite (- 4294967295), Finite 1) (Finite 255) [Finite 0] (Finite 1) d = Some d"
    for d
    by (subst render_rows.simps) (simp add: js_lt_def)
  have y0: "render_rows P2 (Finite (- 4294967295), Finite 1) (Finite 255) [Finite 0] (Finite 0) d = Some d"
    for d
    by (subst render_rows.simps) (simp add: js_lt_def x y1 js_add_def to_number_1)
  have two: "parse 65536 ?b = Some (Inr \<lparr>width = 1, height = 1, data = [0, 0, 0, 0]\<rparr>)"
    unfolding parse_render[OF g]
    by (simp add: numbers_of_def depth_of_def hdrsize_def m get_number_def array_index_def
        render_def i y0)
  show ?thesis using one two by simp
qed

text \<open>
  C3, amended. For every input of a supported format, if the width token or the height
  token is missing, fails to parse as an integer (\<open>parseInt\<close> gives NaN) or parses to
  zero, decoding fails, with the \<open>IndexSizeError\<close> of the \<open>ImageData\<close> constructor,
  and no image is made. (maxValue is not validated.)
\<close>

theorem unparsed_or_zero_size_fails:
  assumes "detect_format ascii = Inr format"
    and "k < 2"
    and "length (get_tokens_from_ascii ascii) \<le> k
       \<or> parseInt (get_tokens_from_ascii ascii ! k) \<in> {NaN, Finite 0, NegZero}"
  shows "parse cap ascii = Some (Inl IndexSizeError)"
proof -
  have "get_number (numbers_of format ascii) (num k) \<in> {NaN, Finite 0, NegZero}"
    using assms(3) unfolding header_number[OF detect_format_cases[OF assms(1)] assms(2)]
    by auto
  then have z: "to_unsigned_long (get_number (numbers_of format ascii) (num k)) = 0"
    by (rule to_unsigned_long_zero)
  have "k = 0 \<or> k = 1" using assms(2) by linarith
  then have "to_unsigned_long (get_number (numbers_of format ascii) (Finite 0)) = 0
      \<or> to_unsigned_long (get_number (numbers_of format ascii) (Finite 1)) = 0"
    using z by (auto simp add: Finite_num)
  then show ?thesis
    unfolding parse_render[OF assms(1)]
    by (auto simp add: render_def new_ImageData_def Let_def)
qed

theorem unparsed_or_zero_size_fails_witness:
  "detect_format (js ''P1\<newline>2 x\<newline>0 1\<newline>'') = Inr P1 \<and> (1::nat) < 2
   \<and> parseInt (get_tokens_from_ascii (js ''P1\<newline>2 x\<newline>0 1\<newline>'') ! 1) \<in> {NaN, Finite 0, NegZero}
   \<and> parse 65536 (js ''P1\<newline>2 x\<newline>0 1\<newline>'') = Some (Inl IndexSizeError)"
proof -
  let ?a = "js ''P1\<newline>2 x\<newline>0 1\<newline>''"
  have f: "detect_format ?a = Inr P1" by (simp add: eval_format)
  have k: "(1::nat) < 2" by simp
  have t: "parseInt (get_tokens_from_ascii ?a ! 1) \<in> {NaN, Finite 0, NegZero}"
    by (simp add: eval_tokens eval_parseInt)
  show ?thesis
    using f k t unparsed_or_zero_size_fails[OF f k disjI2, OF t, of 65536] by simp
qed

text \<open>
  C4, as stated, fails: the header is not validated, and a width and a height of
  \<open>-4294967295\<close> are taken modulo \<open>2\<^sup>3\<^sup>2\<close> by the constructor of \<open>ImageData\<close>. The result
  is an image of one pixel that \<open>render\<close>, whose iterations compare with the negative
  numbers, never writes: for the sample 0 the red, green and blue bytes of pixel 0
  are 0, where \<open>255 - 0 * 255\<close> is 255.
\<close>

theorem bitmap_pixels_counterexample:
  "detect_format (js ''P1\<newline>-4294967295 -4294967295\<newline>0\<newline>'') = Inr P1
   \<and> process_ascii_P1 (js ''P1\<newline>-4294967295 -4294967295\<newline>0\<newline>'')
       = [Finite (- 4294967295), Finite (- 4294967295), Finite 0]
   \<and> parse 65536 (js ''P1\<newline>-4294967295 -4294967295\<newline>0\<newline>'')
       = Some (Inr \<lparr>width = 1, height = 1, data = [0, 0, 0, 0]\<rparr>)"
proof -
  let ?a = "js ''P1\<newline>-4294967295 -4294967295\<newline>0\<newline>''"
  have f: "detect_format ?a = Inr P1" by (simp add: eval_format)
  have n: "process_ascii_P1 ?a = [Finite (- 4294967295), Finite (- 4294967295), Finite 0]"
    by (simp add: process_ascii_P1_def eval_tokens eval_parseInt)
  have "parse 65536 ?a = Some (Inr \<lparr>width = 1, height = 1, data = [0, 0, 0, 0]\<rparr>)"
    unfolding parse_render[OF f]
    by (simp add: numbers_of_def depth_of_def hdrsize_def n get_number_def array_index_def
        render_def wrapped_size render_rows_none js_lt_def)
  then show ?thesis using f n by simp
qed

text \<open>
  C4, amended. For every P1 input whose header gives a width \<open>w\<close> and a height \<open>h\<close> from
  1 up to \<open>2\<^sup>3\<^sup>2 - 1\<close> with a buffer of \<open>4 * w * h\<close> bytes the host allocates, and whose
  samples are 0 or 1, decoding gives an image of \<open>w\<close> by \<open>h\<close> pixels in which the red,
  green and blue bytes of every pixel \<open>p\<close> that has a sample are \<open>255 - sample p * 255\<close>
  (0 is white, 1 is black), and every alpha byte is 255. The input
  \<open>"P1\n2 2\n0 1\n1 0\n"\<close> decodes to the bytes 255, 255, 255, 255, 0, 0, 0, 255,
  0, 0, 0, 255, 255, 255, 255, 255.
\<close>

theorem bitmap_pixels:
  assumes "detect_format ascii = Inr P1"
    and "process_ascii_P1 ascii = num w # num h # map num bits"
    and "valid_size cap w h"
    and "\<forall>b \<in> set bits. b \<le> 1"
  shows "\<exists>img. parse cap ascii = Some (Inr img) \<and> width img = w \<and> height img = h
      \<and> length (data img) = 4 * w * h
      \<and> (\<forall>p < w * h. data img ! (4 * p + 3) = 255
            \<and> (p < length bits \<longrightarrow>
                  (\<forall>i < 3. data img ! (4 * p + i) = of_nat (255 - bits ! p * 255))))"
proof -
  have n: "take 2 (numbers_of P1 ascii) = [num w, num h]"
    and s: "drop (hdrsize P1) (numbers_of P1 ascii) = map num bits"
    using assms(2) by (simp_all add: numbers_of_def hdrsize_def)
  from parse_image[OF assms(1) n assms(3)] obtain img where
    img: "parse cap ascii = Some (Inr img)" "width img = w" "height img = h"
      "length (data img) = 4 * w * h"
    and al: "\<forall>p < w * h. data img ! (4 * p + 3) = 255"
    and ch: "\<forall>p < w * h. \<forall>i < 3. data img ! (4 * p + i) =
      ToUint8Clamp (channel P1 (depth_of P1 ascii) (map num bits) p i)"
    unfolding s by blast
  have "data img ! (4 * p + i) = of_nat (255 - bits ! p * 255)"
    if "p < w * h" "p < length bits" "i < 3" for p i
  proof -
    have "bits ! p \<le> 1" using assms(4) that(2) by simp
    then have "ToUint8Clamp (channel P1 (depth_of P1 ascii) (map num bits) p i)
        = of_nat (255 - bits ! p * 255)"
      using that(2) by (intro channel_bitmap) simp_all
    then show ?thesis using ch that(1,3) by simp
  qed
  then show ?thesis using img al by blast
qed

theorem bitmap_pixels_witness:
  "detect_format (js ''P1\<newline>2 2\<newline>0 1\<newline>1 0\<newline>'') = Inr P1
   \<and> process_ascii_P1 (js ''P1\<newline>2 2\<newline>0 1\<newline>1 0\<newline>'') = num 2 # num 2 # map num [0, 1, 1, 0]
   \<and> valid_size 65536 2 2
   \<and> parse 65536 (js ''P1\<newline>2 2\<newline>0 1\<newline>1 0\<newline>'') = Some (Inr \<lparr>width = 2, height = 2,
        data = [255, 255, 255, 255, 0, 0, 0, 255, 0, 0, 0, 255, 255, 255, 255, 255]\<rparr>)"
proof -
  let ?a = "js ''P1\<newline>2 2\<newline>0 1\<newline>1 0\<newline>''"
  let ?v = "\<lambda>p. of_nat (255 - [0, 1, 1, 0] ! p * 255) :: 8 word"
  have f: "detect_format ?a = Inr P1" by (simp add: eval_format)
  have n: "process_ascii_P1 ?a = num 2 # num 2 # map num [0, 1, 1, 0]"
    by (simp add: process_ascii_P1_def eval_tokens eval_parseInt num_def)
  have v: "valid_size 65536 2 2" by (simp add: valid_size_def)
  have b: "\<forall>b \<in> set [0, 1, 1, 0 :: nat]. b \<le> 1" by simp
  from bitmap_pixels[OF f n v b] obtain img where
    img: "parse 65536 ?a = Some (Inr img)" "width img = 2" "height img = 2"
      "length (data img) = 4 * 4"
    and pix: "\<forall>p < 4. data img ! (4 * p + 3) = 255
            \<and> (\<forall>i < 3. data img ! (4 * p + i) = ?v p)"
    by auto
  have "data img ! (4 * p + i) = [?v p, ?v p, ?v p, 255] ! i" if "p < 4" "i < 4" for p i
  proof -
    from pix that(1) have a: "data img ! (4 * p + 3) = 255"
      and c: "\<And>i. i < 3 \<Longrightarrow> data img ! (4 * p + i) = ?v p" by simp_all
    have "i = 0 \<or> i = 1 \<or> i = 2 \<or> i = 3" using that(2) by linarith
    then show ?thesis
    proof (elim disjE)
      assume "i = 0" then show ?thesis using c[of 0] by simp
    next
      assume "i = 1" then show ?thesis using c[of 1] by simp
    next
      assume "i = 2" then show ?thesis using c[of 2] by simp
    next
      assume "i = 3" then show ?thesis using a by simp
    qed
  qed
  then have "data img = concat (map (\<lambda>p. [?v p, ?v p, ?v p, 255]) [0 ..< 4])"
    using img(4) by (intro quads_eqI) simp_all
  also have "[0 ..< 4] = [0, 1, 2, 3 :: nat]" by (simp add: upt_rec)
  finally have d: "data img = [255, 255, 255, 255, 0, 0, 0, 255, 0, 0, 0, 255, 255, 255, 255, 255]"
    by simp
  have "img = \<lparr>width = 2, height = 2,
      data = [255, 255, 255, 255, 0, 0, 0, 255, 0, 0, 0, 255, 255, 255, 255, 255]\<rparr>"
    using img(2,3) d by (cases img) simp
  then show ?thesis using f n v b img(1) by simp
qed

text \<open>
  C5, as stated, fails: maxValue is not validated, and with a negative maxValue a
  sample that exceeds it gives a negative quotient, which the store clamps to 0. With
  maxValue \<open>-5\<close> the sample 10 is stored as 0, not as 255; and so it is with the token
  \<open>-0\<close>, which \<open>parseInt\<close> reads as the negative zero: 10 divided by it is \<open>-Infinity\<close>.
\<close>

theorem saturates_at_255_counterexample:
  "process_ascii (js ''P2\<newline>1 1\<newline>-5\<newline>10\<newline>'') = [Finite 1, Finite 1, Finite (- 5), Finite 10]
   \<and> js_lt (Finite (- 5)) (Finite 10)
   \<and> parse 65536 (js ''P2\<newline>1 1\<newline>-5\<newline>10\<newline>'')
       = Some (Inr \<lparr>width = 1, height = 1, data = [0, 0, 0, 255]\<rparr>)
   \<and> process_ascii (js ''P2\<newline>1 1\<newline>-0\<newline>10\<newline>'') = [Finite 1, Finite 1, NegZero, Finite 10]
   \<and> js_lt NegZero (Finite 10)
   \<and> parse 65536 (js ''P2\<newline>1 1\<newline>-0\<newline>10\<newline>'')
       = Some (Inr \<lparr>width = 1, height = 1, data = [0, 0, 0, 255]\<rparr>)"
proof -
  let ?a = "js ''P2\<newline>1 1\<newline>-5\<newline>10\<newline>''"
  have f: "detect_format ?a = Inr P2" by (simp add: eval_format)
  have n: "process_ascii ?a = num 1 # num 1 # Finite (- 5) # [Finite 10]"
    by (simp add: process_ascii_def eval_tokens eval_parseInt num_def)
  have v: "valid_size 65536 1 1" by (simp add: valid_size_def)
  have c: "ToUint8Clamp (channel P2 (Finite (- 5)) [Finite 10] 0 i) = 0" for i
    by (simp add: channel_def sample_index_def get_number_num js_div_def js_mul_def
        to_number_neg_numeral ToUint8Clamp_def)
  have one: "parse 65536 ?a = Some (Inr \<lparr>width = 1, height = 1, data = [0, 0, 0, 255]\<rparr>)"
    using parse_graymap[OF f _ n v] by (simp add: c)
  let ?b = "js ''P2\<newline>1 1\<newline>-0\<newline>10\<newline>''"
  have g: "detect_format ?b = Inr P2" by (simp add: eval_format)
  have m: "process_ascii ?b = num 1 # num 1 # NegZero # [Finite 10]"
    by (simp add: process_ascii_def eval_tokens eval_parseInt num_def)
  have e: "ToUint8Clamp (channel P2 NegZero [Finite 10] 0 i) = 0" for i
    by (simp add: channel_def sample_index_def get_number_num js_div_def js_mul_def
        signed_inf_def ToUint8Clamp_def)
  have two: "parse 65536 ?b = Some (Inr \<lparr>width = 1, height = 1, data = [0, 0, 0, 255]\<rparr>)"
    using parse_graymap[OF g _ m v] by (simp add: e)
  show ?thesis using n one m two by (simp add: num_def js_lt_def)
qed

text \<open>
  C5, amended. For every decoding of P2 or P3 with a header the image buffer can hold
  and a declared maxValue whose sign is not negative (it is neither below zero nor the
  negative zero), every byte of the pixel buffer lies between 0 and 255, and a channel
  whose sample exceeds maxValue holds 255: the store saturates, it does not wrap
  around.
\<close>

theorem sample_above_maxValue_saturates:
  assumes "detect_format ascii = Inr format" "format = P2 \<or> format = P3"
    and "process_ascii ascii = num w # num h # d # samples"
    and "valid_size cap w h" "\<not> is_neg d"
  shows "\<exists>img. parse cap ascii = Some (Inr img)
      \<and> (\<forall>k < length (data img). 0 \<le> uint (data img ! k) \<and> uint (data img ! k) \<le> 255)
      \<and> (\<forall>p < w * h. \<forall>i < 3. sample_index format p i < length samples
            \<longrightarrow> js_lt d (samples ! sample_index format p i)
            \<longrightarrow> data img ! (4 * p + i) = 255)"
proof -
  note hdr = graymap_header[OF assms(2,3)]
  from parse_image[OF assms(1) hdr(1) assms(4)] obtain img where
    img: "parse cap ascii = Some (Inr img)"
    and ch: "\<forall>p < w * h. \<forall>i < 3. data img ! (4 * p + i) =
      ToUint8Clamp (channel format d samples p i)"
    unfolding hdr by blast
  have range: "\<forall>k < length (data img). 0 \<le> uint (data img ! k) \<and> uint (data img ! k) \<le> 255"
  proof (intro allI impI)
    fix k
    have "uint (data img ! k) < 2 ^ 8" using uint_bounded[of "data img ! k"] by simp
    then show "0 \<le> uint (data img ! k) \<and> uint (data img ! k) \<le> 255" by simp
  qed
  have sat: "data img ! (4 * p + i) = 255"
    if "p < w * h" "i < 3" "sample_index format p i < length samples"
      "js_lt d (samples ! sample_index format p i)" for p i
  proof -
    have "channel format d samples p i
        = js_mul (js_div (samples ! sample_index format p i) d) (Finite 255)"
      using that(3) assms(2) by (auto simp add: channel_def get_number_num)
    then show ?thesis using ch that(1,2) scaled_saturates_number[OF assms(5) that(4)] by simp
  qed
  show ?thesis using img range sat by blast
qed

theorem sample_above_maxValue_saturates_witness:
  "detect_format (js ''P2\<newline>1 1\<newline>100\<newline>300\<newline>'') = Inr P2
   \<and> process_ascii (js ''P2\<newline>1 1\<newline>100\<newline>300\<newline>'') = num 1 # num 1 # Finite 100 # [Finite 300]
   \<and> valid_size 65536 1 1 \<and> \<not> is_neg (Finite 100)
   \<and> sample_index P2 0 0 < length [Finite 300] \<and> js_lt (Finite 100) ([Finite 300] ! sample_index P2 0 0)
   \<and> (\<exists>img. parse 65536 (js ''P2\<newline>1 1\<newline>100\<newline>300\<newline>'') = Some (Inr img)
        \<and> uint (data img ! 0) \<le> 255 \<and> data img ! 0 = 255)"
proof -
  let ?a = "js ''P2\<newline>1 1\<newline>100\<newline>300\<newline>''"
  have f: "detect_format ?a = Inr P2" by (simp add: eval_format)
  have n: "process_ascii ?a = num 1 # num 1 # Finite 100 # [Finite 300]"
    by (simp add: process_ascii_def eval_tokens eval_parseInt num_def)
  have v: "valid_size 65536 1 1" by (simp add: valid_size_def)
  have d: "\<not> is_neg (Finite 100)" by simp
  have s: "sample_index P2 0 0 < length [Finite 300]" by (simp add: sample_index_def)
  have g: "js_lt (Finite 100) ([Finite 300] ! sample_index P2 0 0)"
    by (simp add: sample_index_def js_lt_def)
  from sample_above_maxValue_saturates[OF f _ n v d] obtain img where
    i: "parse 65536 ?a = Some (Inr img)"
    and r: "\<forall>k < length (data img). 0 \<le> uint (data img ! k) \<and> uint (data img ! k) \<le> 255"
    and t: "\<forall>p < 1 * 1. \<forall>i < 3. sample_index P2 p i < length [Finite 300]
            \<longrightarrow> js_lt (Finite 100) ([Finite 300] ! sample_index P2 p i)
            \<longrightarrow> data img ! (4 * p + i) = 255"
    by auto
  from t s g have b: "data img ! 0 = 255" by auto
  then have "uint (data img ! 0) \<le> 255" by simp
  then show ?thesis using f n v d s g i b by blast
qed

text \<open>
  C6, as stated, fails: a tab is not a separator. In \<open>"P2\n2\t1"\<close> the tokenizer finds
  the one token \<open>"2\t1"\<close>, where the white space delimited runs are \<open>"2"\<close> and \<open>"1"\<close>.
\<close>

theorem whitespace_separates_tokens_counterexample:
  "get_tokens_from_ascii (js ''P2\<newline>2'' @ TAB # js ''1'') = [js ''2'' @ TAB # js ''1'']
   \<and> text_runs is_white_space (remaining_text (js ''P2\<newline>2'' @ TAB # js ''1'')) = [js ''2'', js ''1'']"
  by (simp add: eval_tokens remaining_text_def is_white_space_def text_runs_run)

text \<open>
  C6, amended. After the magic and the comments are removed, the output of the tokenizer
  is exactly the sequence of the maximal non-empty runs of the remaining text between
  spaces and line feeds, in their order; only the space and the line feed separate
  tokens (a tab or a carriage return is part of a token), and no token is empty.
\<close>

theorem tokens_are_space_or_newline_runs:
  "get_tokens_from_ascii ascii = text_runs (\<lambda>c. c = SP \<or> c = LF) (remaining_text ascii)
   \<and> (\<forall>t \<in> set (get_tokens_from_ascii ascii). t \<noteq> [] \<and> (\<forall>c \<in> set t. c \<noteq> SP \<and> c \<noteq> LF))"
proof -
  have a: "get_tokens_from_ascii ascii = text_runs (\<lambda>c. c = SP \<or> c = LF) (remaining_text ascii)"
    by (rule tokens_runs)
  have "t \<noteq> [] \<and> (\<forall>c \<in> set t. c \<noteq> SP \<and> c \<noteq> LF)" if "t \<in> set (get_tokens_from_ascii ascii)" for t
    using text_runs_tokens[of t "\<lambda>c. c = SP \<or> c = LF" "remaining_text ascii"] that
    unfolding a by simp
  then show ?thesis using a by blast
qed

theorem tokens_are_space_or_newline_runs_witness:
  "get_tokens_from_ascii (js ''P2\<newline>2'' @ TAB # js ''1 3\<newline>'') = [js ''2'' @ TAB # js ''1'', js ''3'']
   \<and> text_runs (\<lambda>c. c = SP \<or> c = LF) (remaining_text (js ''P2\<newline>2'' @ TAB # js ''1 3\<newline>''))
       = [js ''2'' @ TAB # js ''1'', js ''3'']"
proof -
  let ?a = "js ''P2\<newline>2'' @ TAB # js ''1 3\<newline>''"
  have t: "get_tokens_from_ascii ?a = [js ''2'' @ TAB # js ''1'', js ''3'']"
    by (simp add: eval_tokens)
  show ?thesis
    using tokens_are_space_or_newline_runs[of ?a] unfolding t by simp
qed

text \<open>
  C7. \<open>get_tokens_from_ascii\<close> removes a comment with \<open>replace(/#.*/, "")\<close> on every piece
  between line feeds, to "remove comments until the end of line", but the dot stops at
  a carriage return: in the line \<open>"10 20 #x\r30"\<close> the code units after the carriage
  return follow the \<open>#\<close> on the same line and still reach the tokens, as the token
  \<open>"\r30"\<close> and the number 30. In \<open>"P2\n2 1\n255\n10 #x\r255\n0\n"\<close> the second pixel
  is painted from the 255 inside the comment, and is white; with the comment removed
  up to the end of its line it is painted from the 0 of the next line, and is black.
\<close>

theorem comment_survives_carriage_return:
  "get_tokens_from_ascii (js ''P2\<newline>2 1\<newline>255\<newline>10 20 #x'' @ CR # js ''30\<newline>'')
     = [js ''2'', js ''1'', js ''255'', js ''10'', js ''20'', CR # js ''30'']
   \<and> process_ascii (js ''P2\<newline>2 1\<newline>255\<newline>10 20 #x'' @ CR # js ''30\<newline>'')
     = [Finite 2, Finite 1, Finite 255, Finite 10, Finite 20, Finite 30]
   \<and> get_tokens_from_ascii (js ''P2\<newline>2 1\<newline>255\<newline>10 #x'' @ CR # js ''255\<newline>0\<newline>'')
     = [js ''2'', js ''1'', js ''255'', js ''10'', CR # js ''255'', js ''0'']
   \<and> process_ascii (js ''P2\<newline>2 1\<newline>255\<newline>10 #x'' @ CR # js ''255\<newline>0\<newline>'')
     = [Finite 2, Finite 1, Finite 255, Finite 10, Finite 255, Finite 0]
   \<and> parse 65536 (js ''P2\<newline>2 1\<newline>255\<newline>10 #x'' @ CR # js ''255\<newline>0\<newline>'')
     = Some (Inr \<lparr>width = 2, height = 1, data = [10, 10, 10, 255, 255, 255, 255, 255]\<rparr>)
   \<and> parse 65536 (js ''P2\<newline>2 1\<newline>255\<newline>10 \<newline>0\<newline>'')
     = Some (Inr \<lparr>width = 2, height = 1, data = [10, 10, 10, 255, 0, 0, 0, 255]\<rparr>)"
proof -
  let ?a = "js ''P2\<newline>2 1\<newline>255\<newline>10 #x'' @ CR # js ''255\<newline>0\<newline>''"
  let ?b = "js ''P2\<newline>2 1\<newline>255\<newline>10 \<newline>0\<newline>''"
  let ?c = "js ''P2\<newline>2 1\<newline>255\<newline>10 20 #x'' @ CR # js ''30\<newline>''"
  have k: "get_tokens_from_ascii ?c = [js ''2'', js ''1'', js ''255'', js ''10'', js ''20'', CR # js ''30'']"
    by (simp add: eval_tokens)
  have q: "process_ascii ?c = [Finite 2, Finite 1, Finite 255, Finite 10, Finite 20, Finite 30]"
    unfolding process_ascii_def k by (simp add: eval_parseInt js_def CR_def)
  have t: "get_tokens_from_ascii ?a = [js ''2'', js ''1'', js ''255'', js ''10'', CR # js ''255'', js ''0'']"
    by (simp add: eval_tokens)
  have n: "process_ascii ?a = num 2 # num 1 # Finite 255 # [Finite 10, Finite 255, Finite 0]"
    unfolding process_ascii_def t by (simp add: eval_parseInt js_def CR_def num_def)
  have f: "detect_format ?a = Inr P2" by (simp add: eval_format)
  have v: "valid_size 65536 2 1" by (simp add: valid_size_def)
  have u: "[0 ..< 2 * 1] = [0, 1]" by (simp add: upt_rec)
  have c0: "ToUint8Clamp (channel P2 (Finite 255) (Finite 10 # ns) 0 i) = 10" for i ns
    by (simp add: channel_def sample_index_def get_number_num scaled_ten ToUint8Clamp_def)
  have c1: "ToUint8Clamp (channel P2 (Finite 255) [Finite 10, Finite 255, Finite 0] (Suc 0) i) = 255" for i
    by (simp add: channel_def sample_index_def get_number_num js_div_def js_mul_def
        to_number_1 to_number_numeral)
  have one: "parse 65536 ?a
      = Some (Inr \<lparr>width = 2, height = 1, data = [10, 10, 10, 255, 255, 255, 255, 255]\<rparr>)"
    using parse_graymap[OF f _ n v] unfolding u by (simp add: c0 c1)
  have g: "detect_format ?b = Inr P2" by (simp add: eval_format)
  have m: "process_ascii ?b = num 2 # num 1 # Finite 255 # [Finite 10, Finite 0]"
    by (simp add: process_ascii_def eval_tokens eval_parseInt num_def)
  have d1: "ToUint8Clamp (channel P2 (Finite 255) [Finite 10, Finite 0] (Suc 0) i) = 0" for i
    by (simp add: channel_def sample_index_def get_number_num js_div_def js_mul_def
        signed_zero_def ToUint8Clamp_def)
  have two: "parse 65536 ?b
      = Some (Inr \<lparr>width = 2, height = 1, data = [10, 10, 10, 255, 0, 0, 0, 255]\<rparr>)"
    using parse_graymap[OF g _ m v] unfolding u by (simp add: c0 d1)
  show ?thesis using k q t n one two by (simp add: num_def)
qed

text \<open>
  C8, as stated, fails: with a width and a height of \<open>-4294967295\<close>, which the constructor
  of \<open>ImageData\<close> takes modulo \<open>2\<^sup>3\<^sup>2\<close>, decoding succeeds with an image of one pixel that
  \<open>render\<close> never writes, and the alpha byte at offset 3 is 0.
\<close>

theorem alpha_is_opaque_counterexample:
  "parse 65536 (js ''P3\<newline>-4294967295 -4294967295\<newline>255\<newline>1 2 3\<newline>'')
       = Some (Inr \<lparr>width = 1, height = 1, data = [0, 0, 0, 0]\<rparr>)"
proof -
  let ?a = "js ''P3\<newline>-4294967295 -4294967295\<newline>255\<newline>1 2 3\<newline>''"
  have f: "detect_format ?a = Inr P3" by (simp add: eval_format)
  have n: "process_ascii ?a = [Finite (- 4294967295), Finite (- 4294967295), Finite 255,
      Finite 1, Finite 2, Finite 3]"
    by (simp add: process_ascii_def eval_tokens eval_parseInt)
  show ?thesis
    unfolding parse_render[OF f]
    by (simp add: numbers_of_def depth_of_def hdrsize_def n get_number_def array_index_def
        render_def wrapped_size render_rows_none js_lt_def)
qed

text \<open>
  C8, amended. For every decoding of any of the three formats whose header gives a
  width \<open>w\<close> and a height \<open>h\<close> from 1 up to \<open>2\<^sup>3\<^sup>2 - 1\<close>, with a buffer of \<open>4 * w * h\<close> bytes
  within what the host allocates, the decoding succeeds with an image of that width
  and height, and for every pixel index \<open>p\<close> below \<open>w * h\<close> the alpha byte at offset
  \<open>4 * p + 3\<close> is 255.
\<close>

theorem alpha_is_opaque:
  assumes "detect_format ascii = Inr format"
    and "take 2 (numbers_of format ascii) = [num w, num h]"
    and "valid_size cap w h"
  shows "\<exists>img. parse cap ascii = Some (Inr img) \<and> width img = w \<and> height img = h
      \<and> length (data img) = 4 * w * h \<and> (\<forall>p < w * h. data img ! (4 * p + 3) = 255)"
  using parse_image[OF assms] by blast

theorem alpha_is_opaque_witness:
  "detect_format (js ''P3\<newline>1 1\<newline>255\<newline>255 0 0\<newline>'') = Inr P3
   \<and> take 2 (numbers_of P3 (js ''P3\<newline>1 1\<newline>255\<newline>255 0 0\<newline>'')) = [num 1, num 1]
   \<and> valid_size 65536 1 1
   \<and> (\<exists>img. parse 65536 (js ''P3\<newline>1 1\<newline>255\<newline>255 0 0\<newline>'') = Some (Inr img)
        \<and> width img = 1 \<and> height img = 1 \<and> length (data img) = 4 \<and> data img ! 3 = 255)"
proof -
  let ?a = "js ''P3\<newline>1 1\<newline>255\<newline>255 0 0\<newline>''"
  have f: "detect_format ?a = Inr P3" by (simp add: eval_format)
  have n: "take 2 (numbers_of P3 ?a) = [num 1, num 1]"
    by (simp add: numbers_of_def process_ascii_def eval_tokens eval_parseInt num_def)
  have v: "valid_size 65536 1 1" by (simp add: valid_size_def)
  from alpha_is_opaque[OF f n v] obtain img where
    "parse 65536 ?a = Some (Inr img)" "width img = 1" "height img = 1" "length (data img) = 4"
    "\<forall>p<1. data img ! (4 * p + 3) = 255" by auto
  then have "parse 65536 ?a = Some (Inr img) \<and> width img = 1 \<and> height img = 1
      \<and> length (data img) = 4 \<and> data img ! 3 = 255" by simp
  then show ?thesis using f n v by blast
qed

text \<open>
  C9. For every input whose first two code units are not one of \<open>P1\<close>, \<open>P2\<close>, \<open>P3\<close>
  (the binary magics \<open>P4\<close>, \<open>P5\<close>, \<open>P6\<close> included, and inputs shorter than two code
  units), decoding fails with the error for an unsupported format, which carries the
  magic that was found, and no image is made. The input \<open>"P9\n1 1\n255\n0\n"\<close> fails
  this way.
\<close>

theorem unsupported_magic:
  assumes "take 2 ascii \<notin> {js ''P1'', js ''P2'', js ''P3''}"
  shows "parse cap ascii = Some (Inl (Unsupported_NetPBM_format (take 2 ascii)))"
  using assms by (simp add: parse_def NetPBMImage_def detect_format_def MAGICS_def Let_def)

theorem unsupported_magic_witness:
  "take 2 (js ''P9\<newline>1 1\<newline>255\<newline>0\<newline>'') \<notin> {js ''P1'', js ''P2'', js ''P3''}
   \<and> parse 65536 (js ''P9\<newline>1 1\<newline>255\<newline>0\<newline>'') = Some (Inl (Unsupported_NetPBM_format (js ''P9'')))
   \<and> parse 65536 (js ''P4\<newline>1 1\<newline>'') = Some (Inl (Unsupported_NetPBM_format (js ''P4'')))"
proof -
  have a: "take 2 (js ''P9\<newline>1 1\<newline>255\<newline>0\<newline>'') \<notin> {js ''P1'', js ''P2'', js ''P3''}"
    by (simp add: js_def)
  have b: "take 2 (js ''P4\<newline>1 1\<newline>'') \<notin> {js ''P1'', js ''P2'', js ''P3''}"
    by (simp add: js_def)
  show ?thesis
    using a unsupported_magic[OF a, of 65536] unsupported_magic[OF b, of 65536]
    by (simp add: js_def)
qed




end
